theory Spec2Isabelle
  imports Complex_Main "HOL-Library.Char_ord" "HOL-Library.List_Lexorder"
begin

section \<open>Values and errors\<close>

text \<open>
  The scripts handle decoded JSON: records of the yearly files, rows of the REST
  endpoint and responses of the ingestion function. A decoded value is \<open>None\<close>, a
  \<open>bool\<close>, an \<open>int\<close>, a \<open>str\<close>, a \<open>list\<close> or a \<open>dict\<close>; a \<open>dict\<close> is kept as an
  association list with distinct keys, read with \<open>map_of\<close>. Numbers with a fraction
  are not part of the model. A character of a \<open>string\<close> stands for one code point
  below 256.
\<close>

datatype json =
    JNull
  | JBool bool
  | JInt int
  | JStr string
  | JList "json list"
  | JObj "(string \<times> json) list"

text \<open>The exceptions that the modelled code can raise, as values.\<close>

datatype error =
    Unauthorized
  | ServerError int
  | HTTPError int
  | TransportError
  | JSONDecodeError
  | FailedAfterRetries "error option"
  | AttributeError
  | TypeError
  | ValueError

definition EDGE_PATH :: string where
  "EDGE_PATH = ''/functions/v1/ingest_raw_data''"

definition DEFAULT_BATCH_SIZE :: int where
  "DEFAULT_BATCH_SIZE = 250"

definition RETRY_SLEEP_SECONDS :: nat where
  "RETRY_SLEEP_SECONDS = 2"

definition MAX_RETRIES :: nat where
  "MAX_RETRIES = 2"

definition MIN_BATCH_SIZE :: nat where
  "MIN_BATCH_SIZE = 50"

definition PAGE_SIZE :: int where
  "PAGE_SIZE = 10000"

section \<open>Python primitives used by the scripts\<close>

text \<open>\<open>xs[i:j]\<close>: a negative index counts from the end, and both are clamped to the list.\<close>

definition py_index :: "nat \<Rightarrow> int \<Rightarrow> nat" where
  "py_index n k = (if k < 0 then nat (max (k + int n) 0) else min (nat k) n)"

definition py_slice :: "'a list \<Rightarrow> int \<Rightarrow> int \<Rightarrow> 'a list" where
  "py_slice xs i j =
     (let a = py_index (length xs) i; b = py_index (length xs) j
      in take (b - a) (drop a xs))"

text \<open>\<open>bool(v)\<close>, and \<open>a or b\<close>.\<close>

fun truthy :: "json \<Rightarrow> bool" where
  "truthy JNull = False"
| "truthy (JBool b) = b"
| "truthy (JInt n) = (n \<noteq> 0)"
| "truthy (JStr s) = (s \<noteq> [])"
| "truthy (JList xs) = (xs \<noteq> [])"
| "truthy (JObj kvs) = (kvs \<noteq> [])"

definition py_or :: "json \<Rightarrow> json \<Rightarrow> json" where
  "py_or a b = (if truthy a then a else b)"

text \<open>\<open>d.get(key, default)\<close>; only a \<open>dict\<close> has the method.\<close>

fun py_get :: "json \<Rightarrow> string \<Rightarrow> json \<Rightarrow> error + json" where
  "py_get (JObj kvs) key dflt = Inr (case map_of kvs key of None \<Rightarrow> dflt | Some v \<Rightarrow> v)"
| "py_get _ key dflt = Inl AttributeError"

text \<open>Iterating over a value (\<open>for row in data\<close>, \<open>rows.extend(data)\<close>) and \<open>len\<close>.\<close>

fun py_iter :: "json \<Rightarrow> error + json list" where
  "py_iter (JList xs) = Inr xs"
| "py_iter (JObj kvs) = Inr (map (\<lambda>kv. JStr (fst kv)) kvs)"
| "py_iter (JStr s) = Inr (map (\<lambda>c. JStr [c]) s)"
| "py_iter _ = Inl TypeError"


text \<open>
  \<open>int(s)\<close> for a string: surrounding white space is dropped, a sign may come first, and
  the digits may be grouped by single underscores. \<open>None\<close> stands for \<open>ValueError\<close>.
  The interpreter's limit on the number of digits is left out.
\<close>

definition is_space :: "char \<Rightarrow> bool" where
  "is_space c = (of_char c \<in> set [9, 10, 11, 12, 13, 32, 133, 160 :: nat])"

definition is_digit :: "char \<Rightarrow> bool" where
  "is_digit c = (48 \<le> (of_char c :: nat) \<and> (of_char c :: nat) \<le> 57)"

definition digit_val :: "char \<Rightarrow> nat" where
  "digit_val c = of_char c - 48"

definition py_strip :: "string \<Rightarrow> string" where
  "py_strip s = rev (dropWhile is_space (rev (dropWhile is_space s)))"

fun parse_digits :: "string \<Rightarrow> nat \<Rightarrow> bool \<Rightarrow> nat option" where
  "parse_digits [] acc after_digit = (if after_digit then Some acc else None)"
| "parse_digits (c # cs) acc after_digit =
     (if is_digit c then parse_digits cs (10 * acc + digit_val c) True
      else if c = CHR ''_'' \<and> after_digit then parse_digits cs acc False
      else None)"

definition int_of_str :: "string \<Rightarrow> int option" where
  "int_of_str s =
     (case py_strip s of
        [] \<Rightarrow> None
      | c # cs \<Rightarrow>
          if c = CHR ''-'' then map_option (\<lambda>n. - int n) (parse_digits cs 0 False)
          else if c = CHR ''+'' then map_option int (parse_digits cs 0 False)
          else map_option int (parse_digits (c # cs) 0 False))"

text \<open>\<open>int(v)\<close> for a decoded value.\<close>

fun py_int :: "json \<Rightarrow> error + int" where
  "py_int (JInt n) = Inr n"
| "py_int (JBool b) = Inr (if b then 1 else 0)"
| "py_int (JStr s) = (case int_of_str s of None \<Rightarrow> Inl ValueError | Some n \<Rightarrow> Inr n)"
| "py_int _ = Inl TypeError"

text \<open>
  \<open>str(v)\<close>. The text of a \<open>list\<close> or \<open>dict\<close> is left to the parameter \<open>repr\<close>.
\<close>

fun str_of_nat :: "nat \<Rightarrow> string" where
  "str_of_nat n =
     (if n < 10 then [''0123456789'' ! n]
      else str_of_nat (n div 10) @ [''0123456789'' ! (n mod 10)])"

declare str_of_nat.simps [simp del]

definition str_of_int :: "int \<Rightarrow> string" where
  "str_of_int i = (if i < 0 then CHR ''-'' # str_of_nat (nat (- i)) else str_of_nat (nat i))"

fun py_str :: "(json \<Rightarrow> string) \<Rightarrow> json \<Rightarrow> string" where
  "py_str repr JNull = ''None''"
| "py_str repr (JBool b) = (if b then ''True'' else ''False'')"
| "py_str repr (JInt n) = str_of_int n"
| "py_str repr (JStr s) = s"
| "py_str repr v = repr v"

text \<open>\<open>a + b\<close> on decoded values.\<close>

fun py_add :: "json \<Rightarrow> json \<Rightarrow> error + json" where
  "py_add (JList xs) (JList ys) = Inr (JList (xs @ ys))"
| "py_add (JStr s) (JStr t) = Inr (JStr (s @ t))"
| "py_add (JInt a) (JInt b) = Inr (JInt (a + b))"
| "py_add (JInt a) (JBool b) = Inr (JInt (a + (if b then 1 else 0)))"
| "py_add (JBool a) (JInt b) = Inr (JInt ((if a then 1 else 0) + b))"
| "py_add (JBool a) (JBool b) = Inr (JInt ((if a then 1 else 0) + (if b then 1 else 0)))"
| "py_add _ _ = Inl TypeError"

section \<open>Partitioning into batches\<close>

text \<open>
  \<open>chunk_list\<close> of \<open>ingest_yearly_setlists.py\<close>. The \<open>while\<close> loop does not end for a
  chunk size below 1, so the loop is a partial function and \<open>None\<close> stands for a run
  that never returns.
\<close>

partial_function (option) chunk_loop ::
  "'a list \<Rightarrow> int \<Rightarrow> int \<Rightarrow> 'a list list \<Rightarrow> 'a list list option" where
  "chunk_loop items chunk_size start_index chunks =
     (let total = int (length items) in
      if start_index < total then
        (let end_index = min (start_index + chunk_size) total
         in chunk_loop items chunk_size end_index
              (chunks @ [py_slice items start_index end_index]))
      else Some chunks)"

definition chunk_list :: "'a list \<Rightarrow> int \<Rightarrow> 'a list list option" where
  "chunk_list items chunk_size = chunk_loop items chunk_size 0 []"

section \<open>The endpoint and what the scripts do to it\<close>

text \<open>
  A request either gets no response (\<open>requests\<close> raises: connection error, timeout) or a
  response with a status code, a body that may or may not decode as JSON, and possibly
  a \<open>Content-Range\<close> header. The server is a function of its own state, so that it may
  answer the same request differently each time; every request ends, with a response
  or without one (the scripts set a timeout). The \<open>world\<close> holds the server's state
  and the trace of what the script has done so far: the requests, the sleeps between
  attempts and the messages about splits.
\<close>

datatype reply =
    No_reply
  | Reply int "json option" "string option"

datatype event =
    Post "json list"
  | Sleep nat
  | Print_split nat nat nat
  | Get int int

record 's world =
  server :: 's
  trace :: "event list"

type_synonym 's post_endpoint = "'s \<Rightarrow> json list \<Rightarrow> reply \<times> 's"

type_synonym 's get_endpoint = "'s \<Rightarrow> int \<Rightarrow> int \<Rightarrow> reply \<times> 's"

definition raise_for_status :: "int \<Rightarrow> error option" where
  "raise_for_status status = (if 400 \<le> status \<and> status < 600 then Some (HTTPError status) else None)"

section \<open>Submitting a batch\<close>

text \<open>The body of the \<open>try\<close> in \<open>post_batch\<close>, after the request.\<close>

fun post_response :: "reply \<Rightarrow> error + json" where
  "post_response No_reply = Inl TransportError"
| "post_response (Reply status body hdr) =
     (if status = 401 then Inl Unauthorized
      else if status \<ge> 500 then Inl (ServerError status)
      else case raise_for_status status of
             Some e \<Rightarrow> Inl e
           | None \<Rightarrow> (case body of None \<Rightarrow> Inl JSONDecodeError | Some v \<Rightarrow> Inr v))"

text \<open>
  The \<open>for attempt in range(1, MAX_RETRIES + 1)\<close> loop of \<open>post_batch\<close>: every exception
  of the body is caught, and is raised again only on the last attempt.
\<close>

fun post_attempts ::
  "'s post_endpoint \<Rightarrow> json list \<Rightarrow> error option \<Rightarrow> nat list \<Rightarrow> 's world
     \<Rightarrow> (error + json) \<times> 's world" where
  "post_attempts ep batch last_error [] w = (Inl (FailedAfterRetries last_error), w)"
| "post_attempts ep batch last_error (attempt # rest) w =
     (case ep (server w) batch of (r, s') \<Rightarrow>
        (let w1 = \<lparr>server = s', trace = trace w @ [Post batch]\<rparr> in
         case post_response r of
           Inr v \<Rightarrow> (Inr v, w1)
         | Inl exc \<Rightarrow>
             if attempt < MAX_RETRIES
             then post_attempts ep batch (Some exc) rest
                    (w1\<lparr>trace := trace w1 @ [Sleep RETRY_SLEEP_SECONDS]\<rparr>)
             else (Inl exc, w1)))"

definition post_batch ::
  "'s post_endpoint \<Rightarrow> json list \<Rightarrow> 's world \<Rightarrow> (error + json) \<times> 's world" where
  "post_batch ep batch w = post_attempts ep batch None [1..<MAX_RETRIES + 1] w"

text \<open>The aggregation of the two halves' responses in \<open>post_batch_adaptive\<close>.\<close>

definition sum_field :: "json \<Rightarrow> json \<Rightarrow> string \<Rightarrow> error + int" where
  "sum_field res_left res_right key =
     (case py_get res_left key (JInt 0) of Inl e \<Rightarrow> Inl e | Inr a \<Rightarrow>
      case py_int a of Inl e \<Rightarrow> Inl e | Inr x \<Rightarrow>
      case py_get res_right key (JInt 0) of Inl e \<Rightarrow> Inl e | Inr b \<Rightarrow>
      case py_int b of Inl e \<Rightarrow> Inl e | Inr y \<Rightarrow> Inr (x + y))"

definition both_success :: "json \<Rightarrow> json \<Rightarrow> error + bool" where
  "both_success res_left res_right =
     (case py_get res_left ''success'' (JBool False) of Inl e \<Rightarrow> Inl e | Inr a \<Rightarrow>
      if truthy a
      then (case py_get res_right ''success'' (JBool False) of
              Inl e \<Rightarrow> Inl e | Inr b \<Rightarrow> Inr (truthy b))
      else Inr False)"

definition joined_results :: "json \<Rightarrow> json \<Rightarrow> error + json" where
  "joined_results res_left res_right =
     (case py_get res_left ''results'' JNull of Inl e \<Rightarrow> Inl e | Inr a \<Rightarrow>
      case py_get res_right ''results'' JNull of Inl e \<Rightarrow> Inl e | Inr b \<Rightarrow>
      py_add (py_or a (JList [])) (py_or b (JList [])))"

definition aggregate :: "json \<Rightarrow> json \<Rightarrow> error + json" where
  "aggregate res_left res_right =
     (case both_success res_left res_right of Inl e \<Rightarrow> Inl e | Inr success \<Rightarrow>
      case sum_field res_left res_right ''total_new_records'' of Inl e \<Rightarrow> Inl e | Inr new \<Rightarrow>
      case sum_field res_left res_right ''total_updated_records'' of Inl e \<Rightarrow> Inl e | Inr upd \<Rightarrow>
      case joined_results res_left res_right of Inl e \<Rightarrow> Inl e | Inr results \<Rightarrow>
      Inr (JObj [(''success'', JBool success),
                 (''total_new_records'', JInt new),
                 (''total_updated_records'', JInt upd),
                 (''results'', results)]))"

text \<open>
  \<open>post_batch_adaptive\<close>. Next to the outcome and the world, the model returns the
  depth of the recursion below this call: 0 when the call makes no recursive call.
\<close>

function post_batch_adaptive_depth ::
  "'s post_endpoint \<Rightarrow> json list \<Rightarrow> 's world \<Rightarrow> ((error + json) \<times> 's world) \<times> nat" where
  "post_batch_adaptive_depth ep batch w =
     (case post_batch ep batch w of
        (Inr v, w1) \<Rightarrow> ((Inr v, w1), 0)
      | (Inl exc, w1) \<Rightarrow>
          if length batch \<le> MIN_BATCH_SIZE then ((Inl exc, w1), 0)
          else
            (let mid = length batch div 2;
                 left = take mid batch;
                 right = drop mid batch;
                 w2 = w1\<lparr>trace := trace w1 @
                        [Print_split (length batch) (length left) (length right)]\<rparr>
             in case post_batch_adaptive_depth ep left w2 of
                  ((Inl e, w3), dl) \<Rightarrow> ((Inl e, w3), Suc dl)
                | ((Inr res_left, w3), dl) \<Rightarrow>
                    (case post_batch_adaptive_depth ep right w3 of
                       ((Inl e, w4), dr) \<Rightarrow> ((Inl e, w4), Suc (max dl dr))
                     | ((Inr res_right, w4), dr) \<Rightarrow>
                         ((aggregate res_left res_right, w4), Suc (max dl dr)))))"
  by pat_completeness auto
termination
  by (relation "measure (\<lambda>(ep, batch, w). length batch)")
     (auto simp: MIN_BATCH_SIZE_def)

declare post_batch_adaptive_depth.simps [simp del]

definition post_batch_adaptive ::
  "'s post_endpoint \<Rightarrow> json list \<Rightarrow> 's world \<Rightarrow> (error + json) \<times> 's world" where
  "post_batch_adaptive ep batch w = fst (post_batch_adaptive_depth ep batch w)"

definition recursion_depth :: "'s post_endpoint \<Rightarrow> json list \<Rightarrow> 's world \<Rightarrow> nat" where
  "recursion_depth ep batch w = snd (post_batch_adaptive_depth ep batch w)"

section \<open>Paged reads\<close>

text \<open>
  The total of a \<open>Content-Range\<close> header (\<open>items 0-999/12345\<close>). \<open>fetch_all_rows\<close> reads
  what follows the last \<open>/\<close>, \<open>get_distinct_external_ids\<close> what follows the first one;
  a missing header counts as the empty string.
\<close>

definition header_or_empty :: "string option \<Rightarrow> string" where
  "header_or_empty hdr = (case hdr of None \<Rightarrow> [] | Some h \<Rightarrow> h)"

definition after_last_slash :: "string \<Rightarrow> string" where
  "after_last_slash s = rev (takeWhile (\<lambda>c. c \<noteq> CHR ''/'') (rev s))"

definition after_first_slash :: "string \<Rightarrow> string" where
  "after_first_slash s = tl (dropWhile (\<lambda>c. c \<noteq> CHR ''/'') s)"

definition total_after_last :: "string option \<Rightarrow> int option" where
  "total_after_last hdr =
     (let content_range = header_or_empty hdr in
      if CHR ''/'' \<in> set content_range then int_of_str (after_last_slash content_range)
      else None)"

definition total_after_first :: "string option \<Rightarrow> int option" where
  "total_after_first hdr =
     (let content_range = header_or_empty hdr in
      if CHR ''/'' \<in> set content_range then int_of_str (after_first_slash content_range)
      else None)"

text \<open>
  The \<open>while True\<close> loop of \<open>fetch_all_rows\<close> (\<open>reconcile_setlists.py\<close>), with the page
  size as a parameter. The loop has no bound of its own: \<open>None\<close> stands for a run that
  never returns.
\<close>

partial_function (option) fetch_loop ::
  "int \<Rightarrow> 's get_endpoint \<Rightarrow> int \<Rightarrow> json list \<Rightarrow> 's world
     \<Rightarrow> ((error + json list) \<times> 's world) option" where
  "fetch_loop page_size ep range_from rows w =
     (let range_to = range_from + page_size - 1 in
      case ep (server w) range_from range_to of (r, s') \<Rightarrow>
        (let w1 = \<lparr>server = s', trace = trace w @ [Get range_from range_to]\<rparr> in
         case r of
           No_reply \<Rightarrow> Some (Inl TransportError, w1)
         | Reply status body hdr \<Rightarrow>
             (case raise_for_status status of
                Some e \<Rightarrow> Some (Inl e, w1)
              | None \<Rightarrow>
                  (case body of
                     None \<Rightarrow> Some (Inl JSONDecodeError, w1)
                   | Some data \<Rightarrow>
                       (case py_iter data of
                          Inl e \<Rightarrow> Some (Inl e, w1)
                        | Inr page \<Rightarrow>
                            (let rows' = rows @ page; total = total_after_last hdr in
                             if \<not> truthy data \<or> (total \<noteq> None \<and> range_to + 1 \<ge> the total)
                             then Some (Inr rows', w1)
                             else fetch_loop page_size ep (range_from + page_size) rows' w1))))))"

definition fetch_all_rows ::
  "'s get_endpoint \<Rightarrow> 's world \<Rightarrow> ((error + json list) \<times> 's world) option" where
  "fetch_all_rows ep w = fetch_loop PAGE_SIZE ep 0 [] w"

section \<open>Identifier sets\<close>

text \<open>A \<open>for\<close> loop over rows whose body updates the set of identifiers or raises.\<close>

fun for_rows ::
  "(json \<Rightarrow> string set \<Rightarrow> error + string set) \<Rightarrow> json list \<Rightarrow> string set
     \<Rightarrow> error + string set" where
  "for_rows body [] ids = Inr ids"
| "for_rows body (r # rest) ids =
     (case body r ids of Inl e \<Rightarrow> Inl e | Inr ids' \<Rightarrow> for_rows body rest ids')"

text \<open>
  \<open>eid = row.get(key)\<close>, then \<open>ids.add(str(eid))\<close> unless \<open>eid\<close> is \<open>None\<close>: the body of the
  loop in \<open>get_distinct_external_ids\<close> and of the comprehension that builds \<open>json_ids\<close>.
\<close>

definition add_id :: "(json \<Rightarrow> string) \<Rightarrow> string \<Rightarrow> json \<Rightarrow> string set \<Rightarrow> error + string set" where
  "add_id repr key row ids =
     (case py_get row key JNull of
        Inl e \<Rightarrow> Inl e
      | Inr eid \<Rightarrow> Inr (if eid \<noteq> JNull then insert (py_str repr eid) ids else ids))"


text \<open>The loop of \<open>get_distinct_external_ids\<close> (\<open>ingest_yearly_setlists.py\<close>).\<close>

partial_function (option) distinct_loop ::
  "(json \<Rightarrow> string) \<Rightarrow> int \<Rightarrow> 's get_endpoint \<Rightarrow> int \<Rightarrow> string set \<Rightarrow> 's world
     \<Rightarrow> ((error + string set) \<times> 's world) option" where
  "distinct_loop repr page_size ep range_from ids w =
     (let range_to = range_from + page_size - 1 in
      case ep (server w) range_from range_to of (r, s') \<Rightarrow>
        (let w1 = \<lparr>server = s', trace = trace w @ [Get range_from range_to]\<rparr> in
         case r of
           No_reply \<Rightarrow> Some (Inl TransportError, w1)
         | Reply status body hdr \<Rightarrow>
             (case raise_for_status status of
                Some e \<Rightarrow> Some (Inl e, w1)
              | None \<Rightarrow>
                  (case body of
                     None \<Rightarrow> Some (Inl JSONDecodeError, w1)
                   | Some data \<Rightarrow>
                       (case py_iter data of
                          Inl e \<Rightarrow> Some (Inl e, w1)
                        | Inr page \<Rightarrow>
                            (case for_rows (add_id repr ''external_id'') page ids of
                               Inl e \<Rightarrow> Some (Inl e, w1)
                             | Inr ids' \<Rightarrow>
                                 (let total = total_after_first hdr in
                                  if \<not> truthy data \<or> (total \<noteq> None \<and> range_to + 1 \<ge> the total)
                                  then Some (Inr ids', w1)
                                  else distinct_loop repr page_size ep
                                         (range_from + page_size) ids' w1)))))))"











text \<open>
  The identifier of a record or row under a key: absent when the row is no \<open>dict\<close>,
  when it lacks the key, and when the value is \<open>None\<close>.
\<close>

fun is_dict :: "json \<Rightarrow> bool" where
  "is_dict (JObj kvs) = True"
| "is_dict _ = False"

fun identifier_of :: "string \<Rightarrow> json \<Rightarrow> json option" where
  "identifier_of key (JObj kvs) =
     (case map_of kvs key of None \<Rightarrow> None | Some v \<Rightarrow> if v = JNull then None else Some v)"
| "identifier_of key _ = None"

section \<open>The reconciliation report\<close>

text \<open>
  One entry of the report of \<open>reconcile_years\<close> (the same in both scripts). The order
  in which \<open>list(s)\<close> enumerates a set is not fixed by the language: it is the
  parameter \<open>to_list\<close>. \<open>sorted\<close> orders strings by code point, as the order on
  \<open>string\<close> does here.
\<close>

record report_entry =
  json_count :: nat
  bronze_count :: nat
  silver_count :: nat
  json_minus_bronze :: "string list"
  bronze_minus_json :: "string list"
  bronze_minus_silver :: "string list"
  silver_minus_bronze :: "string list"

definition sample :: "(string set \<Rightarrow> string list) \<Rightarrow> string set \<Rightarrow> string list" where
  "sample to_list s = py_slice (sort (to_list s)) 0 50"

definition report_of ::
  "(string set \<Rightarrow> string list) \<Rightarrow> string set \<Rightarrow> string set \<Rightarrow> string set \<Rightarrow> report_entry" where
  "report_of to_list json_ids' bronze_ids silver_ids =
     \<lparr>json_count = card json_ids',
      bronze_count = card bronze_ids,
      silver_count = card silver_ids,
      json_minus_bronze = sample to_list (json_ids' - bronze_ids),
      bronze_minus_json = sample to_list (bronze_ids - json_ids'),
      bronze_minus_silver = sample to_list (bronze_ids - silver_ids),
      silver_minus_bronze = sample to_list (silver_ids - bronze_ids)\<rparr>"

section \<open>Outcomes as the specification describes them\<close>

text \<open>
  The specification's \<open>IngestOutcome\<close> and its rule for combining the outcomes of two
  halves, written from the specification's words, and the response that carries such
  an outcome. \<open>aggregate\<close> above is the code; the two are compared below.
\<close>

record ingest_outcome =
  accepted :: bool
  new_count :: int
  updated_count :: int
  per_batch_results :: "json list"

definition outcome_json :: "ingest_outcome \<Rightarrow> json" where
  "outcome_json out =
     JObj [(''success'', JBool (accepted out)),
           (''total_new_records'', JInt (new_count out)),
           (''total_updated_records'', JInt (updated_count out)),
           (''results'', JList (per_batch_results out))]"

definition combine_outcomes_spec :: "ingest_outcome \<Rightarrow> ingest_outcome \<Rightarrow> ingest_outcome" where
  "combine_outcomes_spec l r =
     \<lparr>accepted = (accepted l \<and> accepted r),
      new_count = new_count l + new_count r,
      updated_count = updated_count l + updated_count r,
      per_batch_results = per_batch_results l @ per_batch_results r\<rparr>"

text \<open>The values that the aggregation uses for the keys a response lacks.\<close>

definition response_defaults :: "(string \<times> json) list" where
  "response_defaults =
     [(''success'', JBool False),
      (''total_new_records'', JInt 0),
      (''total_updated_records'', JInt 0),
      (''results'', JList [])]"

section \<open>Endpoints used in the statements and examples\<close>

text \<open>An endpoint that answers every request with status 401, in whatever state.\<close>

definition always_unauthorized :: "'s post_endpoint \<Rightarrow> bool" where
  "always_unauthorized ep = (\<forall>s batch. \<exists>body hdr. fst (ep s batch) = Reply 401 body hdr)"

text \<open>
  Concrete endpoints without state: one answers every request with the same status and
  no body; one rejects every batch of more than 50 records with status 500 and accepts
  the others, reporting their size.
\<close>

definition always_status :: "int \<Rightarrow> unit post_endpoint" where
  "always_status status s batch = (Reply status None None, s)"

definition large_batch_fails :: "unit post_endpoint" where
  "large_batch_fails s batch =
     (if length batch > 50 then (Reply 500 None None, s)
      else (Reply 200
              (Some (outcome_json \<lparr>accepted = True, new_count = int (length batch),
                      updated_count = 0, per_batch_results = [JInt (int (length batch))]\<rparr>))
              None, s))"

definition world0 :: "unit world" where
  "world0 = \<lparr>server = (), trace = []\<rparr>"

text \<open>The requests among the events of a trace.\<close>

fun is_post :: "event \<Rightarrow> bool" where
  "is_post (Post b) = True"
| "is_post _ = False"

section \<open>Enumerations of a set\<close>

text \<open>
  What \<open>list(s)\<close> may be for a finite set \<open>s\<close>: every element once, in some order.
  \<open>descending\<close> is one such order, used as an example.
\<close>

definition enumerates :: "(string set \<Rightarrow> string list) \<Rightarrow> bool" where
  "enumerates to_list = (\<forall>s. finite s \<longrightarrow> set (to_list s) = s \<and> distinct (to_list s))"

definition descending :: "string set \<Rightarrow> string list" where
  "descending s = rev (sorted_list_of_set s)"

section \<open>Example records and rows\<close>




section \<open>Servers of paged reads\<close>

text \<open>The world after one request for a window.\<close>

definition after_get :: "'s get_endpoint \<Rightarrow> int \<Rightarrow> int \<Rightarrow> 's world \<Rightarrow> 's world" where
  "after_get ep range_from range_to w =
     \<lparr>server = snd (ep (server w) range_from range_to),
      trace = trace w @ [Get range_from range_to]\<rparr>"

text \<open>
  The rows of a collection in the window from \<open>range_from\<close> to \<open>range_to\<close>, both
  included. A server serves the windows of a collection with the right total when it
  answers every request, in every state, with an accepted status, the window asked
  for, and a header whose total \<open>fetch_all_rows\<close> reads as the size of the collection.
\<close>

definition window :: "json list \<Rightarrow> int \<Rightarrow> int \<Rightarrow> json list" where
  "window coll range_from range_to =
     take (nat (range_to - range_from + 1)) (drop (nat range_from) coll)"


text \<open>
  A server that never reports a total that the given reading of the header finds: it
  answers every request, in every state, with an accepted status and a list of rows,
  \<open>page s range_from range_to\<close>.
\<close>

definition pages_without_total ::
  "(string option \<Rightarrow> int option) \<Rightarrow> 's get_endpoint \<Rightarrow> ('s \<Rightarrow> int \<Rightarrow> int \<Rightarrow> json list) \<Rightarrow> bool" where
  "pages_without_total total_of ep page =
     (\<forall>s range_from range_to. \<exists>status hdr s'.
        ep s range_from range_to =
          (Reply status (Some (JList (page s range_from range_to))) hdr, s')
        \<and> raise_for_status status = None
        \<and> total_of hdr = None)"

text \<open>
  Concrete servers without state: one serves the windows of a collection under a fixed
  header, one answers every request with the same single row and no header.
\<close>

definition serve_collection :: "json list \<Rightarrow> string option \<Rightarrow> unit get_endpoint" where
  "serve_collection coll hdr s range_from range_to =
     (Reply 200 (Some (JList (window coll range_from range_to))) hdr, s)"

definition collection_pages :: "json list \<Rightarrow> unit \<Rightarrow> int \<Rightarrow> int \<Rightarrow> json list" where
  "collection_pages coll s range_from range_to = window coll range_from range_to"

definition one_row_pages :: "unit get_endpoint" where
  "one_row_pages s range_from range_to = (Reply 200 (Some (JList [JObj []])) None, s)"


section \<open>The primitives on examples\<close>

lemmas int_of_str_eval =
  int_of_str_def py_strip_def is_space_def is_digit_def digit_val_def

lemma int_of_str_examples:
  "int_of_str ''12'' = Some 12"
  "int_of_str '' -7 '' = Some (- 7)"
  "int_of_str ''+5'' = Some 5"
  "int_of_str ''1_000'' = Some 1000"
  "int_of_str ''1__0'' = None"
  "int_of_str ''_1'' = None"
  "int_of_str ''1_'' = None"
  "int_of_str '''' = None"
  "int_of_str ''- 7'' = None"
  "int_of_str ''*'' = None"
  "int_of_str ''n/a,'' = None"
  by (simp_all add: int_of_str_eval)

lemma py_str_examples:
  "py_str repr (JInt 2012) = ''2012''"
  "py_str repr (JInt (- 3)) = ''-3''"
  "py_str repr (JInt 12) = py_str repr (JStr ''12'')"
  by (simp_all add: str_of_int_def str_of_nat.simps)

lemma content_range_examples:
  "total_after_last (Some ''0-24/3573'') = Some 3573"
  "total_after_first (Some ''0-24/3573'') = Some 3573"
  "total_after_last (Some ''0-24/*'') = None"
  "total_after_last (Some ''a/b/5'') = Some 5"
  "total_after_first (Some ''a/b/5'') = None"
  "total_after_last (Some '''') = None"
  "total_after_last None = None"
  by (simp_all add: total_after_last_def total_after_first_def header_or_empty_def
      after_last_slash_def after_first_slash_def int_of_str_eval)

lemma py_slice_examples:
  "py_slice ''2012-05-01'' 0 4 = ''2012''"
  "py_slice [1, 2, 3 :: nat] 0 50 = [1, 2, 3]"
  "py_slice [1, 2, 3 :: nat] (- 2) 3 = [2, 3]"
  "py_slice [1, 2, 3 :: nat] 2 1 = []"
  by (simp_all add: py_slice_def py_index_def)

text \<open>With a chunk size of 0 the loop of \<open>chunk_list\<close> appends empty chunks for ever.\<close>

lemma chunk_list_zero_never_returns:
  assumes "items \<noteq> []"
  shows "chunk_list items 0 = None"
proof -
  define Q where "Q = (\<lambda>(xs :: 'a list) (chunk_size :: int) (start_index :: int)
      (chunks :: 'a list list) (y :: 'a list list).
      \<not> (chunk_size = 0 \<and> start_index < int (length xs)))"
  have never: "Q items 0 0 [] y" if run: "chunk_loop items 0 0 [] = Some y" for y
  proof (rule chunk_loop.raw_induct[where P = Q, OF _ run])
    fix loop and xs :: "'a list" and chunk_size start_index chunks y
    assume IH: "\<And>xs chunk_size start_index chunks y.
        loop xs chunk_size start_index chunks = Some y \<Longrightarrow> Q xs chunk_size start_index chunks y"
    assume step: "(let total = int (length xs) in
      if start_index < total then
        (let end_index = min (start_index + chunk_size) total
         in loop xs chunk_size end_index (chunks @ [py_slice xs start_index end_index]))
      else Some chunks) = Some y"
    show "Q xs chunk_size start_index chunks y"
      unfolding Q_def
    proof
      assume a: "chunk_size = 0 \<and> start_index < int (length xs)"
      with step have "loop xs chunk_size start_index
          (chunks @ [py_slice xs start_index start_index]) = Some y"
        by (simp add: Let_def min_def)
      from IH[OF this] a show False by (simp add: Q_def)
    qed
  qed
  show ?thesis
  proof (cases "chunk_list items 0")
    case None
    then show ?thesis .
  next
    case (Some y)
    then have "chunk_loop items 0 0 [] = Some y" by (simp add: chunk_list_def)
    from never[OF this] assms show ?thesis by (simp add: Q_def)
  qed
qed

section \<open>Properties of the partition\<close>

lemma py_slice_nonneg:
  "s \<le> length xs \<Longrightarrow> e \<le> length xs \<Longrightarrow> py_slice xs (int s) (int e) = take (e - s) (drop s xs)"
  by (simp add: py_slice_def py_index_def)

lemma chunk_loop_from:
  assumes b: "1 \<le> b"
  shows "s \<le> length items \<Longrightarrow>
    chunk_loop items (int b) (int s) chunks =
      Some (chunks @ map (\<lambda>i. take b (drop (s + i * b) items))
                        [0..<(length items - s + b - 1) div b])"
proof (induction "length items - s" arbitrary: s chunks rule: less_induct)
  case less
  let ?n = "length items"
  show ?case
  proof (cases "s < ?n")
    case False
    with less.prems have "s = ?n" by simp
    with b show ?thesis
      by (subst chunk_loop.simps) simp
  next
    case True
    define e where "e = min (s + b) ?n"
    have e: "e \<le> ?n" "s < e" "e - s \<le> b" using True b by (auto simp: e_def)
    have sl: "py_slice items (int s) (int e) = take b (drop s items)"
      using True e by (auto simp: py_slice_nonneg e_def min_def)
    have step: "chunk_loop items (int b) (int s) chunks =
        chunk_loop items (int b) (int e) (chunks @ [take b (drop s items)])"
      using True sl[symmetric]
      by (subst chunk_loop.simps) (simp add: e_def Let_def min_def)
    have IH: "chunk_loop items (int b) (int e) (chunks @ [take b (drop s items)]) =
        Some ((chunks @ [take b (drop s items)]) @
          map (\<lambda>i. take b (drop (e + i * b) items)) [0..<(?n - e + b - 1) div b])"
      using less.hyps[of e] e True by simp
    show ?thesis
    proof (cases "s + b \<le> ?n")
      case le: True
      then have ee: "e = s + b" by (simp add: e_def)
      have cnt: "(?n - s + b - 1) div b = Suc ((?n - e + b - 1) div b)"
      proof -
        have "?n - s + b - 1 = (?n - e + b - 1) + b" using le ee b by simp
        moreover have "(x + b) div b = Suc (x div b)" for x
          using b by simp
        ultimately show ?thesis by (simp only:)
      qed
      show ?thesis
        unfolding step IH cnt
        by (simp add: upt_conv_Cons map_Suc_upt[symmetric] ee add.assoc del: upt_Suc)
    next
      case gt: False
      then have ee: "e = ?n" by (simp add: e_def)
      have cnt: "(?n - s + b - 1) div b = 1"
        using gt True b by (simp add: div_nat_eqI)
      show ?thesis
        unfolding step IH cnt using b by (simp add: ee)
    qed
  qed
qed


lemma concat_windows:
  assumes b: "1 \<le> (b::nat)"
  shows "concat (map (\<lambda>i. take b (drop (s + i * b) xs)) [0..<(length xs - s + b - 1) div b]) = drop s xs"
proof (induction "length xs - s" arbitrary: s rule: less_induct)
  case less
  show ?case
  proof (cases "s < length xs")
    case False
    then show ?thesis using b by simp
  next
    case True
    have "(length xs - s + b - 1) div b = Suc ((length xs - (s + b) + b - 1) div b)"
    proof (cases "s + b \<le> length xs")
      case True
      have "length xs - s + b - 1 = (length xs - (s + b) + b - 1) + b" using True b by simp
      moreover have "(x + b) div b = Suc (x div b)" for x using b by simp
      ultimately show ?thesis by (simp only:)
    next
      case False
      with True b have "(length xs - s + b - 1) div b = 1" by (simp add: div_nat_eqI)
      moreover from False b have "(length xs - (s + b) + b - 1) div b = 0" by simp
      ultimately show ?thesis by simp
    qed
    moreover have "concat (map (\<lambda>i. take b (drop (s + b + i * b) xs))
         [0..<(length xs - (s + b) + b - 1) div b]) = drop (s + b) xs"
      using less[of "s + b"] True b by simp
    moreover have "take b (drop s xs) @ drop (s + b) xs = drop s xs"
      by (metis add.commute append_take_drop_id drop_drop)
    ultimately show ?thesis
      by (simp add: upt_conv_Cons map_Suc_upt[symmetric] add.assoc comp_def del: upt_Suc)
  qed
qed

text \<open>
  C4. For a batch size of at least 1, \<open>chunk_list\<close> returns, and its batches are the
  consecutive windows of the list: batch \<open>i\<close> holds the records from position \<open>i * B\<close>
  on, at most \<open>B\<close> of them. Their concatenation is the list, there are
  \<open>ceil(N / B)\<close> of them, none is empty, and all but the last hold exactly \<open>B\<close> records.
\<close>

theorem chunk_list_partition:
  assumes "1 \<le> B"
  shows "\<exists>chunks. chunk_list items B = Some chunks
           \<and> concat chunks = items
           \<and> length chunks = (length items + nat B - 1) div nat B
           \<and> (\<forall>i<length chunks. chunks ! i = take (nat B) (drop (i * nat B) items))
           \<and> (\<forall>c\<in>set chunks. 1 \<le> length c \<and> length c \<le> nat B)
           \<and> (\<forall>c\<in>set (butlast chunks). length c = nat B)"
proof -
  define b where "b = nat B"
  have b: "1 \<le> b" "B = int b" using assms by (auto simp: b_def)
  define m where "m = (length items + b - 1) div b"
  define chunks where "chunks = map (\<lambda>i. take b (drop (i * b) items)) [0..<m]"
  have run: "chunk_list items B = Some chunks"
    using chunk_loop_from[OF b(1), of 0 items "[]"]
    by (simp add: chunk_list_def b chunks_def m_def)
  have cat: "concat chunks = items"
    using concat_windows[OF b(1), of 0 items] by (simp add: chunks_def m_def)
  have len: "length chunks = m" by (simp add: chunks_def)
  have nth: "chunks ! i = take b (drop (i * b) items)" if "i < m" for i
    using that by (simp add: chunks_def)
  have m_bound: "i * b < length items" if "i < m" for i
  proof -
    from that have "Suc i \<le> (length items + b - 1) div b" by (simp add: m_def)
    then have "Suc i * b \<le> length items + b - 1" using b(1)
      by (simp add: less_eq_div_iff_mult_less_eq)
    then show ?thesis using b(1) by simp
  qed
  have full: "length (chunks ! i) = b" if "Suc i < m" for i
  proof -
    from that have "Suc (Suc i) \<le> (length items + b - 1) div b" by (simp add: m_def)
    then have "Suc (Suc i) * b \<le> length items + b - 1" using b(1)
      by (simp add: less_eq_div_iff_mult_less_eq)
    then have "i * b + b \<le> length items" using b(1) by simp
    then show ?thesis using that by (simp add: nth)
  qed
  have sizes: "1 \<le> length c \<and> length c \<le> b" if "c \<in> set chunks" for c
  proof -
    from that obtain i where "i < m" "c = chunks ! i"
      by (auto simp: in_set_conv_nth len)
    then show ?thesis using m_bound[of i] b(1) by (simp add: nth)
  qed
  have bl: "length c = b" if "c \<in> set (butlast chunks)" for c
  proof -
    from that obtain i where "i < length (butlast chunks)" "c = butlast chunks ! i"
      by (auto simp: in_set_conv_nth)
    then show ?thesis using full[of i] by (simp add: nth_butlast len)
  qed
  show ?thesis
    using run cat len nth sizes bl unfolding b_def[symmetric] m_def[symmetric] by blast
qed


lemma chunk_list_example:
  "chunk_list [1, 2, 3, 4, 5 :: nat] 2 = Some [[1, 2], [3, 4], [5]]"
  by (simp add: chunk_list_def chunk_loop.simps py_slice_def py_index_def)

theorem chunk_list_partition_witness:
  "(1::int) \<le> 2 \<and>
   (\<exists>chunks. chunk_list [1, 2, 3, 4, 5 :: nat] 2 = Some chunks
      \<and> concat chunks = [1, 2, 3, 4, 5] \<and> length chunks = 3
      \<and> (\<forall>c\<in>set chunks. 1 \<le> length c \<and> length c \<le> 2)
      \<and> (\<forall>c\<in>set (butlast chunks). length c = 2))"
proof -
  have h: "(1::int) \<le> 2" by simp
  from chunk_list_partition[OF h, of "[1, 2, 3, 4, 5 :: nat]"]
  obtain chunks where "chunk_list [1, 2, 3, 4, 5 :: nat] 2 = Some chunks"
    "concat chunks = [1, 2, 3, 4, 5]" "length chunks = 3"
    "\<forall>c\<in>set chunks. 1 \<le> length c \<and> length c \<le> 2"
    "\<forall>c\<in>set (butlast chunks). length c = 2"
    by auto
  with h show ?thesis by blast
qed

section \<open>Properties of batch submission\<close>

lemma attempts_list: "[1..<MAX_RETRIES + 1] = [1, 2]"
  by (simp add: MAX_RETRIES_def upt_conv_Cons)

lemma post_batch_unfold:
  "post_batch ep batch w =
     (case ep (server w) batch of (r1, s1) \<Rightarrow>
        (case post_response r1 of
           Inr v \<Rightarrow> (Inr v, \<lparr>server = s1, trace = trace w @ [Post batch]\<rparr>)
         | Inl e1 \<Rightarrow>
             (case ep s1 batch of (r2, s2) \<Rightarrow>
                (post_response r2,
                 \<lparr>server = s2,
                  trace = trace w @ [Post batch, Sleep RETRY_SLEEP_SECONDS, Post batch]\<rparr>))))"
  unfolding post_batch_def attempts_list
  by (auto simp: MAX_RETRIES_def Let_def split: prod.splits sum.splits)

lemma adaptive_success:
  "post_batch ep batch w = (Inr v, w1) \<Longrightarrow> post_batch_adaptive_depth ep batch w = ((Inr v, w1), 0)"
  by (subst post_batch_adaptive_depth.simps) simp

lemma adaptive_small:
  "post_batch ep batch w = (Inl exc, w1) \<Longrightarrow> length batch \<le> MIN_BATCH_SIZE \<Longrightarrow>
   post_batch_adaptive_depth ep batch w = ((Inl exc, w1), 0)"
  by (subst post_batch_adaptive_depth.simps) simp

lemma adaptive_split:
  assumes "post_batch ep batch w = (Inl exc, w1)" and "MIN_BATCH_SIZE < length batch"
  shows "post_batch_adaptive_depth ep batch w =
     (let mid = length batch div 2;
          left = take mid batch;
          right = drop mid batch;
          w2 = w1\<lparr>trace := trace w1 @
                 [Print_split (length batch) (length left) (length right)]\<rparr>
      in case post_batch_adaptive_depth ep left w2 of
           ((Inl e, w3), dl) \<Rightarrow> ((Inl e, w3), Suc dl)
         | ((Inr res_left, w3), dl) \<Rightarrow>
             (case post_batch_adaptive_depth ep right w3 of
                ((Inl e, w4), dr) \<Rightarrow> ((Inl e, w4), Suc (max dl dr))
              | ((Inr res_right, w4), dr) \<Rightarrow>
                  ((aggregate res_left res_right, w4), Suc (max dl dr))))"
  using assms by (subst post_batch_adaptive_depth.simps) simp

text \<open>
  C6. When \<open>post_batch\<close> fails on a batch of at most \<open>MIN_BATCH_SIZE\<close> records,
  \<open>post_batch_adaptive\<close> raises the same exception and leaves the world as
  \<open>post_batch\<close> left it: no split is printed, no further request is sent, and no
  recursive call is made.
\<close>

theorem small_batch_failure_is_reraised:
  assumes "post_batch ep batch w = (Inl exc, w')" and "length batch \<le> MIN_BATCH_SIZE"
  shows "post_batch_adaptive ep batch w = (Inl exc, w') \<and> recursion_depth ep batch w = 0"
  using adaptive_small[OF assms] by (simp add: post_batch_adaptive_def recursion_depth_def)

lemma post_batch_always_status_500:
  "post_batch (always_status 500) batch world0 =
     (Inl (ServerError 500),
      \<lparr>server = (), trace = [Post batch, Sleep 2, Post batch]\<rparr>)"
  by (simp add: post_batch_unfold always_status_def world0_def RETRY_SLEEP_SECONDS_def)

theorem small_batch_failure_is_reraised_witness:
  "post_batch (always_status 500) [JNull] world0 =
     (Inl (ServerError 500), \<lparr>server = (), trace = [Post [JNull], Sleep 2, Post [JNull]]\<rparr>)
   \<and> length [JNull] \<le> MIN_BATCH_SIZE
   \<and> post_batch_adaptive (always_status 500) [JNull] world0 =
     (Inl (ServerError 500), \<lparr>server = (), trace = [Post [JNull], Sleep 2, Post [JNull]]\<rparr>)
   \<and> recursion_depth (always_status 500) [JNull] world0 = 0"
proof -
  have p: "post_batch (always_status 500) [JNull] world0 =
     (Inl (ServerError 500), \<lparr>server = (), trace = [Post [JNull], Sleep 2, Post [JNull]]\<rparr>)"
    by (rule post_batch_always_status_500)
  have l: "length [JNull] \<le> MIN_BATCH_SIZE" by (simp add: MIN_BATCH_SIZE_def)
  from small_batch_failure_is_reraised[OF p l] p l show ?thesis by simp
qed


lemma aggregate_outcomes:
  "aggregate (outcome_json l) (outcome_json r) = Inr (outcome_json (combine_outcomes_spec l r))"
  by (simp add: aggregate_def both_success_def sum_field_def joined_results_def outcome_json_def
      combine_outcomes_spec_def py_or_def)


lemma adaptive_split_result:
  assumes fails: "post_batch ep batch w = (Inl exc, w1)"
    and large: "MIN_BATCH_SIZE < length batch"
  shows "post_batch_adaptive ep batch w =
        (case post_batch_adaptive ep (take (length batch div 2) batch)
                (w1\<lparr>trace := trace w1 @
                    [Print_split (length batch) (length (take (length batch div 2) batch))
                       (length (drop (length batch div 2) batch))]\<rparr>) of
           (Inl e, w3) \<Rightarrow> (Inl e, w3)
         | (Inr res_left, w3) \<Rightarrow>
             (case post_batch_adaptive ep (drop (length batch div 2) batch) w3 of
                (Inl e, w4) \<Rightarrow> (Inl e, w4)
              | (Inr res_right, w4) \<Rightarrow> (aggregate res_left res_right, w4)))"
proof -
  define left where "left = take (length batch div 2) batch"
  define right where "right = drop (length batch div 2) batch"
  define w2 where "w2 = w1\<lparr>trace := trace w1 @
      [Print_split (length batch) (length left) (length right)]\<rparr>"
  note d = adaptive_split[OF fails large, unfolded Let_def, folded left_def right_def,
      folded w2_def]
  obtain rl wl dl where L: "post_batch_adaptive_depth ep left w2 = ((rl, wl), dl)"
    by (metis surj_pair)
  show ?thesis
  proof (cases rl)
    case (Inl e)
    with L d show ?thesis
      by (simp add: post_batch_adaptive_def left_def[symmetric] right_def[symmetric]
          w2_def[symmetric])
  next
    case (Inr res_left)
    obtain rr wr dr where R: "post_batch_adaptive_depth ep right wl = ((rr, wr), dr)"
      by (metis surj_pair)
    with L d Inr show ?thesis
      by (cases rr)
         (simp_all add: post_batch_adaptive_def left_def[symmetric] right_def[symmetric]
          w2_def[symmetric])
  qed
qed

text \<open>
  C5. When \<open>post_batch\<close> fails on a batch of more than \<open>MIN_BATCH_SIZE\<close> records,
  the batch is cut at \<open>len(batch) // 2\<close> into two non-empty halves whose concatenation
  is the batch; \<open>post_batch_adaptive\<close> runs on the left half and then, from the world
  the left half left, on the right half; an exception of either half is raised (the
  right half is not submitted when the left one raises); and the two responses are
  aggregated. On responses that carry outcomes the aggregation is the specification's
  rule: conjunction of \<open>accepted\<close>, sums of the counts, results left then right.
\<close>

theorem bisection_splits_and_combines:
  assumes fails: "post_batch ep batch w = (Inl exc, w1)"
    and large: "MIN_BATCH_SIZE < length batch"
  shows "take (length batch div 2) batch @ drop (length batch div 2) batch = batch
    \<and> length (take (length batch div 2) batch) = length batch div 2
    \<and> take (length batch div 2) batch \<noteq> [] \<and> drop (length batch div 2) batch \<noteq> []
    \<and> post_batch_adaptive ep batch w =
        (case post_batch_adaptive ep (take (length batch div 2) batch)
                (w1\<lparr>trace := trace w1 @
                    [Print_split (length batch) (length (take (length batch div 2) batch))
                       (length (drop (length batch div 2) batch))]\<rparr>) of
           (Inl e, w3) \<Rightarrow> (Inl e, w3)
         | (Inr res_left, w3) \<Rightarrow>
             (case post_batch_adaptive ep (drop (length batch div 2) batch) w3 of
                (Inl e, w4) \<Rightarrow> (Inl e, w4)
              | (Inr res_right, w4) \<Rightarrow> (aggregate res_left res_right, w4)))
    \<and> (\<forall>l r. aggregate (outcome_json l) (outcome_json r) =
                 Inr (outcome_json (combine_outcomes_spec l r)))"
proof -
  have ne: "take (length batch div 2) batch \<noteq> []" "drop (length batch div 2) batch \<noteq> []"
    using large by (auto simp: MIN_BATCH_SIZE_def)
  show ?thesis
    by (intro conjI allI)
       (simp, simp, rule ne, rule ne, rule adaptive_split_result[OF fails large],
        rule aggregate_outcomes)
qed


lemma large_batch_fails_small:
  "length b \<le> 50 \<Longrightarrow>
   post_batch_adaptive large_batch_fails b w =
     (Inr (outcome_json \<lparr>accepted = True, new_count = int (length b), updated_count = 0,
             per_batch_results = [JInt (int (length b))]\<rparr>),
      \<lparr>server = server w, trace = trace w @ [Post b]\<rparr>)"
  by (simp add: post_batch_adaptive_def adaptive_success post_batch_unfold large_batch_fails_def
      raise_for_status_def)

lemma large_batch_fails_large:
  "50 < length b \<Longrightarrow>
   post_batch large_batch_fails b w =
     (Inl (ServerError 500),
      \<lparr>server = server w, trace = trace w @ [Post b, Sleep 2, Post b]\<rparr>)"
  by (simp add: post_batch_unfold large_batch_fails_def RETRY_SLEEP_SECONDS_def)

theorem bisection_splits_and_combines_witness:
  "post_batch large_batch_fails (replicate 51 JNull) world0 =
     (Inl (ServerError 500),
      \<lparr>server = (), trace = [Post (replicate 51 JNull), Sleep 2, Post (replicate 51 JNull)]\<rparr>)
   \<and> MIN_BATCH_SIZE < length (replicate 51 JNull)
   \<and> post_batch_adaptive large_batch_fails (replicate 51 JNull) world0 =
     (Inr (outcome_json \<lparr>accepted = True, new_count = 51, updated_count = 0,
             per_batch_results = [JInt 25, JInt 26]\<rparr>),
      \<lparr>server = (),
       trace = [Post (replicate 51 JNull), Sleep 2, Post (replicate 51 JNull),
                Print_split 51 25 26, Post (replicate 25 JNull), Post (replicate 26 JNull)]\<rparr>)"
proof -
  have p: "post_batch large_batch_fails (replicate 51 JNull) world0 =
     (Inl (ServerError 500),
      \<lparr>server = (), trace = [Post (replicate 51 JNull), Sleep 2, Post (replicate 51 JNull)]\<rparr>)"
    by (simp add: large_batch_fails_large world0_def)
  have l: "MIN_BATCH_SIZE < length (replicate 51 JNull)"
    by (simp add: MIN_BATCH_SIZE_def)
  from bisection_splits_and_combines[OF p l] p l show ?thesis
    by (simp add: large_batch_fails_small aggregate_outcomes combine_outcomes_spec_def)
qed


lemma unauthorized_post_batch:
  assumes "always_unauthorized ep"
  shows "\<exists>s'. post_batch ep batch w =
     (Inl Unauthorized,
      \<lparr>server = s', trace = trace w @ [Post batch, Sleep RETRY_SLEEP_SECONDS, Post batch]\<rparr>)"
proof -
  obtain r1 s1 where e1: "ep (server w) batch = (r1, s1)" by (metis surj_pair)
  obtain r2 s2 where e2: "ep s1 batch = (r2, s2)" by (metis surj_pair)
  from assms e1 obtain b1 h1 where r1: "r1 = Reply 401 b1 h1"
    unfolding always_unauthorized_def by (metis fst_conv)
  from assms e2 obtain b2 h2 where r2: "r2 = Reply 401 b2 h2"
    unfolding always_unauthorized_def by (metis fst_conv)
  show ?thesis
    by (simp add: post_batch_unfold e1 e2 r1 r2)
qed

lemma unauthorized_adaptive:
  "always_unauthorized ep \<Longrightarrow>
   fst (fst (post_batch_adaptive_depth ep batch w)) = Inl Unauthorized"
proof (induction ep batch w rule: post_batch_adaptive_depth.induct)
  case (1 ep batch w)
  note assms = "1.prems"
  from unauthorized_post_batch[OF assms, of batch w] obtain w1
    where p: "post_batch ep batch w = (Inl Unauthorized, w1)" by blast
  show ?case
  proof (cases "length batch \<le> MIN_BATCH_SIZE")
    case True
    with p show ?thesis by (simp add: adaptive_small)
  next
    case False
    define left where "left = take (length batch div 2) batch"
    define w2 where "w2 = w1\<lparr>trace := trace w1 @
      [Print_split (length batch) (length left)
         (length (drop (length batch div 2) batch))]\<rparr>"
    have IH: "fst (fst (post_batch_adaptive_depth ep left w2)) = Inl Unauthorized"
      using "1.IH"(1)[OF p[symmetric] refl False refl refl refl refl assms]
      unfolding left_def w2_def .
    obtain wl dl where L: "post_batch_adaptive_depth ep left w2 = ((Inl Unauthorized, wl), dl)"
      using IH by (metis fst_conv surj_pair)
    from False have large: "MIN_BATCH_SIZE < length batch" by simp
    show ?thesis
      using L unfolding adaptive_split[OF p large] Let_def left_def w2_def
      by simp
  qed
qed


lemma post_batch_trace:
  "\<exists>evs. trace (snd (post_batch ep batch w)) = trace w @ Post batch # evs"
  by (auto simp: post_batch_unfold split: prod.splits sum.splits)

lemma adaptive_trace_extends:
  "\<exists>evs. trace (snd (fst (post_batch_adaptive_depth ep batch w))) = trace w @ evs"
proof (induction ep batch w rule: post_batch_adaptive_depth.induct)
  case (1 ep batch w)
  obtain r w1 where p: "post_batch ep batch w = (r, w1)" by (metis surj_pair)
  from post_batch_trace[of ep batch w] p obtain evs1
    where t1: "trace w1 = trace w @ Post batch # evs1" by auto
  show ?case
  proof (cases r)
    case (Inr v)
    with p t1 show ?thesis by (simp add: adaptive_success)
  next
    case (Inl exc)
    note p' = p[unfolded Inl]
    show ?thesis
    proof (cases "length batch \<le> MIN_BATCH_SIZE")
      case True
      with p' t1 show ?thesis by (simp add: adaptive_small)
    next
      case False
      define left where "left = take (length batch div 2) batch"
      define right where "right = drop (length batch div 2) batch"
      define w2 where "w2 = w1\<lparr>trace := trace w1 @
        [Print_split (length batch) (length left) (length right)]\<rparr>"
      obtain rl wl dl where L: "post_batch_adaptive_depth ep left w2 = ((rl, wl), dl)"
        by (metis surj_pair)
      have "\<exists>evs. trace (snd (fst (post_batch_adaptive_depth ep left w2))) = trace w2 @ evs"
        using "1.IH"(1)[OF p'[symmetric] refl False refl refl refl refl]
        unfolding left_def right_def w2_def .
      with L obtain evl where tl: "trace wl = trace w2 @ evl" by auto
      from False have large: "MIN_BATCH_SIZE < length batch" by simp
      note d = adaptive_split[OF p' large, unfolded Let_def, folded left_def right_def,
          folded w2_def]
      show ?thesis
      proof (cases rl)
        case (Inl e)
        with L d tl t1 show ?thesis by (simp add: w2_def)
      next
        case (Inr res_left)
        obtain rr wr dr where R: "post_batch_adaptive_depth ep right wl = ((rr, wr), dr)"
          by (metis surj_pair)
        have "\<exists>evs. trace (snd (fst (post_batch_adaptive_depth ep right wl))) = trace wl @ evs"
          using "1.IH"(2)[OF p'[symmetric] refl False refl refl refl refl
              L[unfolded left_def right_def w2_def, symmetric] refl Inr]
          unfolding right_def .
        with R obtain evr where tr: "trace wr = trace wl @ evr" by auto
        from L R d Inr tl tr t1 show ?thesis
          by (cases rr) (simp_all add: w2_def)
      qed
    qed
  qed
qed


text \<open>
  C1, as the code has it. When the endpoint answers every request with status 401,
  \<open>post_batch\<close> raises the \<open>Unauthorized\<close> error only after it has slept and sent the
  batch a second time, as for any other failure. \<open>post_batch_adaptive\<close> raises that
  error at once for a batch of at most \<open>MIN_BATCH_SIZE\<close> records and bisects a
  larger batch first; the error it finally raises is \<open>Unauthorized\<close>.
\<close>

theorem unauthorized_is_retried_then_bisected:
  assumes "always_unauthorized ep"
  shows "(\<exists>s'. post_batch ep batch w =
            (Inl Unauthorized,
             \<lparr>server = s',
              trace = trace w @ [Post batch, Sleep RETRY_SLEEP_SECONDS, Post batch]\<rparr>))
    \<and> fst (post_batch_adaptive ep batch w) = Inl Unauthorized
    \<and> (length batch \<le> MIN_BATCH_SIZE \<longrightarrow>
           post_batch_adaptive ep batch w = post_batch ep batch w)
    \<and> (MIN_BATCH_SIZE < length batch \<longrightarrow>
          (\<exists>evs. trace (snd (post_batch_adaptive ep batch w)) =
             trace w @ [Post batch, Sleep RETRY_SLEEP_SECONDS, Post batch,
                        Print_split (length batch) (length batch div 2)
                          (length batch - length batch div 2)] @ evs))"
proof -
  from unauthorized_post_batch[OF assms, of batch w] obtain s1
    where p: "post_batch ep batch w =
      (Inl Unauthorized,
       \<lparr>server = s1, trace = trace w @ [Post batch, Sleep RETRY_SLEEP_SECONDS, Post batch]\<rparr>)"
    by blast
  have a: "fst (post_batch_adaptive ep batch w) = Inl Unauthorized"
    using unauthorized_adaptive[OF assms] by (simp add: post_batch_adaptive_def)
  have b: "post_batch_adaptive ep batch w = post_batch ep batch w"
    if "length batch \<le> MIN_BATCH_SIZE"
    using adaptive_small[OF p that] p by (simp add: post_batch_adaptive_def)
  have c: "\<exists>evs. trace (snd (post_batch_adaptive ep batch w)) =
             trace w @ [Post batch, Sleep RETRY_SLEEP_SECONDS, Post batch,
                        Print_split (length batch) (length batch div 2)
                          (length batch - length batch div 2)] @ evs"
    if large: "MIN_BATCH_SIZE < length batch"
  proof -
    define left where "left = take (length batch div 2) batch"
    define right where "right = drop (length batch div 2) batch"
    define w2 where "w2 = \<lparr>server = s1,
      trace = trace w @ [Post batch, Sleep RETRY_SLEEP_SECONDS, Post batch,
        Print_split (length batch) (length batch div 2) (length batch - length batch div 2)]\<rparr>"
    obtain rl wl dl where L: "post_batch_adaptive_depth ep left w2 = ((rl, wl), dl)"
      by (metis surj_pair)
    from adaptive_trace_extends[of ep left w2] L obtain evl
      where tl: "trace wl = trace w2 @ evl" by auto
    from unauthorized_adaptive[OF assms, of left w2] L have rl: "rl = Inl Unauthorized"
      by simp
    have "post_batch_adaptive_depth ep batch w = ((Inl Unauthorized, wl), Suc dl)"
      unfolding adaptive_split[OF p large] Let_def
      using L rl by (simp add: left_def w2_def)
    then show ?thesis
      using tl by (simp add: post_batch_adaptive_def w2_def)
  qed
  from p a b c show ?thesis by blast
qed

lemma always_status_401: "always_unauthorized (always_status 401)"
  by (simp add: always_unauthorized_def always_status_def)

theorem unauthorized_is_retried_then_bisected_witness:
  "always_unauthorized (always_status 401)
   \<and> post_batch (always_status 401) [JNull] world0 =
       (Inl Unauthorized, \<lparr>server = (), trace = [Post [JNull], Sleep 2, Post [JNull]]\<rparr>)
   \<and> post_batch_adaptive (always_status 401) [JNull] world0 =
       post_batch (always_status 401) [JNull] world0"
  using unauthorized_is_retried_then_bisected[OF always_status_401, of "[JNull]" world0]
    always_status_401
  by (simp add: world0_def MIN_BATCH_SIZE_def RETRY_SLEEP_SECONDS_def)

text \<open>
  C1 as stated fails: with an endpoint that always answers 401, a batch of one record
  is sent twice with a sleep in between, and a batch of 51 records is bisected.
\<close>

theorem unauthorized_terminal_counterexample:
  "post_batch (always_status 401) [JNull] world0 =
     (Inl Unauthorized, \<lparr>server = (), trace = [Post [JNull], Sleep 2, Post [JNull]]\<rparr>)
   \<and> post_batch_adaptive (always_status 401) (replicate 51 JNull) world0 =
     (Inl Unauthorized,
      \<lparr>server = (),
       trace = [Post (replicate 51 JNull), Sleep 2, Post (replicate 51 JNull),
                Print_split 51 25 26,
                Post (replicate 25 JNull), Sleep 2, Post (replicate 25 JNull)]\<rparr>)"
proof -
  have p: "post_batch (always_status 401) b w =
     (Inl Unauthorized, \<lparr>server = (), trace = trace w @ [Post b, Sleep 2, Post b]\<rparr>)" for b w
    by (simp add: post_batch_unfold always_status_def RETRY_SLEEP_SECONDS_def)
  have small: "post_batch_adaptive_depth (always_status 401) (replicate 25 JNull) w =
     ((Inl Unauthorized,
       \<lparr>server = (), trace = trace w @ [Post (replicate 25 JNull), Sleep 2,
                                            Post (replicate 25 JNull)]\<rparr>), 0)" for w
    by (rule adaptive_small[OF p]) (simp add: MIN_BATCH_SIZE_def)
  have large: "MIN_BATCH_SIZE < length (replicate 51 JNull)"
    by (simp add: MIN_BATCH_SIZE_def)
  show ?thesis
    unfolding post_batch_adaptive_def adaptive_split[OF p large]
    by (simp add: p small world0_def Let_def)
qed

section \<open>Depth and cost of the bisection\<close>

lemma half_bounds:
  fixes n m :: nat
  assumes "n \<le> m * 2 ^ Suc k"
  shows "n div 2 \<le> m * 2 ^ k" and "n - n div 2 \<le> m * 2 ^ k"
  using assms by auto

lemma post_batch_posts:
  "\<exists>evs. trace (snd (post_batch ep batch w)) = trace w @ evs
     \<and> length (filter is_post evs) \<le> MAX_RETRIES"
  by (auto simp: post_batch_unfold MAX_RETRIES_def split: prod.splits sum.splits)

lemma adaptive_bounds:
  "length batch \<le> MIN_BATCH_SIZE * 2 ^ k \<Longrightarrow>
   snd (post_batch_adaptive_depth ep batch w) \<le> k
   \<and> (\<exists>evs. trace (snd (fst (post_batch_adaptive_depth ep batch w))) = trace w @ evs
          \<and> length (filter is_post evs) \<le> MAX_RETRIES * (2 ^ Suc k - 1))"
proof (induction k arbitrary: batch w)
  case 0
  obtain r w1 where p: "post_batch ep batch w = (r, w1)" by (metis surj_pair)
  from post_batch_posts[of ep batch w] p obtain evs1
    where t1: "trace w1 = trace w @ evs1" "length (filter is_post evs1) \<le> MAX_RETRIES"
    by auto
  from 0 have small: "length batch \<le> MIN_BATCH_SIZE" by simp
  show ?case
  proof (cases r)
    case (Inr v)
    with p t1 show ?thesis by (simp add: adaptive_success)
  next
    case (Inl exc)
    with p t1 small show ?thesis by (simp add: adaptive_small)
  qed
next
  case (Suc k)
  obtain r w1 where p: "post_batch ep batch w = (r, w1)" by (metis surj_pair)
  from post_batch_posts[of ep batch w] p obtain evs1
    where t1: "trace w1 = trace w @ evs1" "length (filter is_post evs1) \<le> MAX_RETRIES"
    by auto
  let ?B = "MAX_RETRIES * (2 ^ Suc k - 1)"
  have budget: "MAX_RETRIES + ?B + ?B = MAX_RETRIES * (2 ^ Suc (Suc k) - 1)"
    by (simp add: algebra_simps diff_mult_distrib2) 
  have "(2::nat) ^ 1 \<le> 2 ^ Suc (Suc k)"
    by (rule power_increasing) simp_all
  then have "(1::nat) \<le> 2 ^ Suc (Suc k) - 1"
    unfolding power_one_right by linarith
  then have "MAX_RETRIES * 1 \<le> MAX_RETRIES * (2 ^ Suc (Suc k) - 1)"
    by (rule mult_le_mono2)
  then have "MAX_RETRIES \<le> MAX_RETRIES * (2 ^ Suc (Suc k) - 1)"
    by (simp only: mult_1_right)
  with t1(2) have one: "length (filter is_post evs1) \<le> MAX_RETRIES * (2 ^ Suc (Suc k) - 1)"
    by (rule le_trans)
  show ?case
  proof (cases r)
    case (Inr v)
    with p t1 one show ?thesis by (simp add: adaptive_success)
  next
    case (Inl exc)
    note p' = p[unfolded Inl]
    show ?thesis
    proof (cases "length batch \<le> MIN_BATCH_SIZE")
      case True
      with p' t1 one show ?thesis by (simp add: adaptive_small)
    next
      case False
      define left where "left = take (length batch div 2) batch"
      define right where "right = drop (length batch div 2) batch"
      define w2 where "w2 = w1\<lparr>trace := trace w1 @
        [Print_split (length batch) (length left) (length right)]\<rparr>"
      have ll: "length left \<le> MIN_BATCH_SIZE * 2 ^ k"
        using half_bounds(1)[OF Suc.prems] by (simp add: left_def)
      have lr: "length right \<le> MIN_BATCH_SIZE * 2 ^ k"
        using half_bounds(2)[OF Suc.prems] by (simp add: right_def)
      obtain rl wl dl where L: "post_batch_adaptive_depth ep left w2 = ((rl, wl), dl)"
        by (metis surj_pair)
      from Suc.IH[OF ll, of w2] L obtain evl
        where tl: "dl \<le> k" "trace wl = trace w2 @ evl" "length (filter is_post evl) \<le> ?B"
        by auto
      obtain rr wr dr where R: "post_batch_adaptive_depth ep right wl = ((rr, wr), dr)"
        by (metis surj_pair)
      from Suc.IH[OF lr, of wl] R obtain evr
        where tr: "dr \<le> k" "trace wr = trace wl @ evr" "length (filter is_post evr) \<le> ?B"
        by auto
      from False have large: "MIN_BATCH_SIZE < length batch" by simp
      note d = adaptive_split[OF p' large, unfolded Let_def, folded left_def right_def,
          folded w2_def]
      have tot: "length (filter is_post evs1) + length (filter is_post evl)
            + length (filter is_post evr) \<le> MAX_RETRIES * (2 ^ Suc (Suc k) - 1)"
        using t1(2) tl(3) tr(3) budget by linarith
      show ?thesis
      proof (cases rl)
        case (Inl e)
        with L d tl t1 tot show ?thesis by (simp add: w2_def)
      next
        case (Inr res_left)
        with L R d tl tr t1 tot show ?thesis
          by (cases rr) (simp_all add: w2_def)
      qed
    qed
  qed
qed


lemma le_two_power_ceil_log:
  assumes "0 < n"
  shows "n \<le> MIN_BATCH_SIZE * 2 ^ nat \<lceil>log 2 (real n / real MIN_BATCH_SIZE)\<rceil>"
proof -
  define x where "x = real n / real MIN_BATCH_SIZE"
  define k where "k = nat \<lceil>log 2 x\<rceil>"
  have x: "0 < x" using assms by (simp add: x_def MIN_BATCH_SIZE_def)
  have "log 2 x \<le> real k" unfolding k_def by linarith
  then have "2 powr log 2 x \<le> 2 powr real k" by (simp add: powr_mono)
  then have "x \<le> 2 ^ k" using x by (simp add: powr_realpow)
  then have "real n \<le> real MIN_BATCH_SIZE * 2 ^ k"
    by (simp add: x_def MIN_BATCH_SIZE_def field_simps)
  then have "real n \<le> real (MIN_BATCH_SIZE * 2 ^ k)" by simp
  then show ?thesis unfolding k_def x_def by (simp only: of_nat_le_iff)
qed

text \<open>
  C8, as the code has it. \<open>post_batch_adaptive\<close> is a total function: it returns for
  every endpoint, batch and world. A batch of at most \<open>MIN_BATCH_SIZE * 2 ^ k\<close> records
  is bisected to a depth of at most \<open>k\<close> and sends at most
  \<open>MAX_RETRIES * (2 ^ (k + 1) - 1)\<close> requests; so the depth is at most the ceiling of
  \<open>log2(len(batch) / MIN_BATCH_SIZE)\<close>. Each half of a split is strictly shorter than
  the batch.
\<close>

theorem bisection_depth_bounded:
  "(\<forall>k. length batch \<le> MIN_BATCH_SIZE * 2 ^ k \<longrightarrow>
        recursion_depth ep batch w \<le> k
        \<and> (\<exists>evs. trace (snd (post_batch_adaptive ep batch w)) = trace w @ evs
               \<and> length (filter is_post evs) \<le> MAX_RETRIES * (2 ^ Suc k - 1)))
   \<and> recursion_depth ep batch w
        \<le> nat \<lceil>log 2 (real (length batch) / real MIN_BATCH_SIZE)\<rceil>
   \<and> (MIN_BATCH_SIZE < length batch \<longrightarrow>
        length (take (length batch div 2) batch) < length batch
        \<and> length (drop (length batch div 2) batch) < length batch)"
proof (intro conjI allI impI)
  fix k assume "length batch \<le> MIN_BATCH_SIZE * 2 ^ k"
  from adaptive_bounds[OF this, of ep w]
  show "recursion_depth ep batch w \<le> k"
    and "\<exists>evs. trace (snd (post_batch_adaptive ep batch w)) = trace w @ evs
               \<and> length (filter is_post evs) \<le> MAX_RETRIES * (2 ^ Suc k - 1)"
    by (simp_all add: recursion_depth_def post_batch_adaptive_def)
next
  show "recursion_depth ep batch w
        \<le> nat \<lceil>log 2 (real (length batch) / real MIN_BATCH_SIZE)\<rceil>"
  proof (cases "length batch = 0")
    case True
    then have "length batch \<le> MIN_BATCH_SIZE * 2 ^ 0" by simp
    from adaptive_bounds[OF this, of ep w] show ?thesis
      by (simp add: recursion_depth_def)
  next
    case False
    then have "length batch \<le> MIN_BATCH_SIZE *
        2 ^ nat \<lceil>log 2 (real (length batch) / real MIN_BATCH_SIZE)\<rceil>"
      by (intro le_two_power_ceil_log) simp
    from adaptive_bounds[OF this, of ep w] show ?thesis
      by (simp add: recursion_depth_def)
  qed
next
  assume "MIN_BATCH_SIZE < length batch"
  then show "length (take (length batch div 2) batch) < length batch"
    and "length (drop (length batch div 2) batch) < length batch"
    by (simp_all add: MIN_BATCH_SIZE_def)
qed

lemma depth_51:
  "recursion_depth (always_status 500) (replicate 51 JNull) world0 = 1"
proof -
  have p: "post_batch (always_status 500) b w =
     (Inl (ServerError 500), \<lparr>server = (), trace = trace w @ [Post b, Sleep 2, Post b]\<rparr>)" for b w
    by (simp add: post_batch_unfold always_status_def RETRY_SLEEP_SECONDS_def)
  have small: "post_batch_adaptive_depth (always_status 500) (replicate 25 JNull) w =
     ((Inl (ServerError 500),
       \<lparr>server = (), trace = trace w @ [Post (replicate 25 JNull), Sleep 2,
                                            Post (replicate 25 JNull)]\<rparr>), 0)" for w
    by (rule adaptive_small[OF p]) (simp add: MIN_BATCH_SIZE_def)
  have large: "MIN_BATCH_SIZE < length (replicate 51 JNull)"
    by (simp add: MIN_BATCH_SIZE_def)
  show ?thesis
    unfolding recursion_depth_def adaptive_split[OF p large]
    by (simp add: p small world0_def Let_def)
qed

theorem bisection_depth_bounded_witness:
  "length (replicate 51 JNull) \<le> MIN_BATCH_SIZE * 2 ^ 1
   \<and> MIN_BATCH_SIZE < length (replicate 51 JNull)
   \<and> recursion_depth (always_status 500) (replicate 51 JNull) world0 \<le> 1
   \<and> length (take (length (replicate 51 JNull) div 2) (replicate 51 JNull)) < 51"
proof -
  have a: "length (replicate 51 JNull) \<le> MIN_BATCH_SIZE * 2 ^ 1"
    and b: "MIN_BATCH_SIZE < length (replicate 51 JNull)"
    by (simp_all add: MIN_BATCH_SIZE_def)
  from bisection_depth_bounded[of "replicate 51 JNull" "always_status 500" world0] a b
  show ?thesis by auto
qed

text \<open>
  C8 as stated fails: a batch of 51 records that keeps failing is split once, and
  \<open>log2(51 / 50)\<close> is below 1.
\<close>

theorem log_depth_bound_counterexample:
  "\<not> real (recursion_depth (always_status 500) (replicate 51 JNull) world0)
       \<le> log 2 (real (length (replicate 51 JNull)) / real MIN_BATCH_SIZE)"
proof -
  have "log 2 (51 / 50) < log 2 2"
    by (subst log_less_cancel_iff) simp_all
  then have "log 2 (51 / 50) < 1" by simp
  then show ?thesis
    by (simp add: depth_51 MIN_BATCH_SIZE_def)
qed

section \<open>Aggregation of responses with missing keys\<close>

lemma get_with_defaults:
  "map_of response_defaults key = Some dflt \<Longrightarrow>
   py_get (JObj (kvs @ response_defaults)) key other = py_get (JObj kvs) key dflt"
  by (simp add: map_add_def split: option.splits)

lemma defaults_lookup:
  "map_of response_defaults ''success'' = Some (JBool False)"
  "map_of response_defaults ''total_new_records'' = Some (JInt 0)"
  "map_of response_defaults ''total_updated_records'' = Some (JInt 0)"
  "map_of response_defaults ''results'' = Some (JList [])"
  by (simp_all add: response_defaults_def)

lemma both_success_defaults:
  "both_success (JObj (l @ response_defaults)) (JObj (r @ response_defaults)) =
   both_success (JObj l) (JObj r)"
  unfolding both_success_def
  by (simp only: get_with_defaults[OF defaults_lookup(1)])

lemma sum_field_defaults:
  "key = ''total_new_records'' \<or> key = ''total_updated_records'' \<Longrightarrow>
   sum_field (JObj (l @ response_defaults)) (JObj (r @ response_defaults)) key =
   sum_field (JObj l) (JObj r) key"
  unfolding sum_field_def
  by (auto simp only: get_with_defaults[OF defaults_lookup(2)]
      get_with_defaults[OF defaults_lookup(3)])

lemma results_or_empty:
  "py_or (case map_of kvs ''results'' of None \<Rightarrow> JList [] | Some v \<Rightarrow> v) (JList []) =
   py_or (case map_of kvs ''results'' of None \<Rightarrow> JNull | Some v \<Rightarrow> v) (JList [])"
  by (simp add: py_or_def split: option.splits)

lemma joined_results_defaults:
  "joined_results (JObj (l @ response_defaults)) (JObj (r @ response_defaults)) =
   joined_results (JObj l) (JObj r)"
  unfolding joined_results_def
  by (simp only: get_with_defaults[OF defaults_lookup(4)])
     (simp add: results_or_empty py_or_def split: option.splits)

lemma aggregate_defaults:
  "aggregate (JObj (l @ response_defaults)) (JObj (r @ response_defaults)) =
   aggregate (JObj l) (JObj r)"
  unfolding aggregate_def
  by (simp only: both_success_defaults sum_field_defaults joined_results_defaults simp_thms)

lemma null_results_left:
  "both_success (JObj ((''results'', x) # l)) r = both_success (JObj l) r"
  "key \<noteq> ''results'' \<Longrightarrow> sum_field (JObj ((''results'', x) # l)) r key = sum_field (JObj l) r key"
  "joined_results (JObj ((''results'', JNull) # l)) r =
   joined_results (JObj ((''results'', JList []) # l)) r"
  by (simp_all add: both_success_def sum_field_def joined_results_def py_or_def
      cong: sum.case_cong if_cong)

lemma null_results_right:
  "both_success l (JObj ((''results'', x) # r)) = both_success l (JObj r)"
  "key \<noteq> ''results'' \<Longrightarrow> sum_field l (JObj ((''results'', x) # r)) key = sum_field l (JObj r) key"
  "joined_results l (JObj ((''results'', JNull) # r)) =
   joined_results l (JObj ((''results'', JList []) # r))"
  by (simp_all add: both_success_def sum_field_def joined_results_def py_or_def
      cong: sum.case_cong if_cong)

lemma aggregate_success_field:
  "aggregate l r = Inr agg \<Longrightarrow>
   \<exists>b. both_success l r = Inr b \<and> py_get agg ''success'' JNull = Inr (JBool b)"
  by (auto simp: aggregate_def split: sum.splits)

lemma both_success_missing:
  "map_of l ''success'' = None \<or> map_of r ''success'' = None \<Longrightarrow>
   both_success (JObj l) (JObj r) = Inr False"
  by (auto simp: both_success_def split: option.splits)

text \<open>
  C10. Aggregating two responses gives the same result, or the same exception, as
  aggregating them with every missing key filled in: \<open>success\<close> by \<open>False\<close>, the two
  counts by 0, \<open>results\<close> by the empty list; a \<open>results\<close> that is \<open>null\<close> counts as the
  empty list too. When \<open>success\<close> is missing in either half, the aggregated \<open>success\<close>
  is \<open>False\<close>. Two responses without any key aggregate to the defaults.
\<close>

theorem aggregate_missing_fields:
  "aggregate (JObj l) (JObj r) =
     aggregate (JObj (l @ response_defaults)) (JObj (r @ response_defaults))
   \<and> aggregate (JObj ((''results'', JNull) # l)) (JObj r) =
     aggregate (JObj ((''results'', JList []) # l)) (JObj r)
   \<and> aggregate (JObj l) (JObj ((''results'', JNull) # r)) =
     aggregate (JObj l) (JObj ((''results'', JList []) # r))
   \<and> (map_of l ''success'' = None \<or> map_of r ''success'' = None \<longrightarrow>
        (\<forall>agg. aggregate (JObj l) (JObj r) = Inr agg \<longrightarrow>
               py_get agg ''success'' JNull = Inr (JBool False)))
   \<and> aggregate (JObj []) (JObj []) = Inr (JObj response_defaults)"
proof (intro conjI impI allI)
  show "aggregate (JObj l) (JObj r) =
     aggregate (JObj (l @ response_defaults)) (JObj (r @ response_defaults))"
    by (simp only: aggregate_defaults)
  show "aggregate (JObj ((''results'', JNull) # l)) (JObj r) =
     aggregate (JObj ((''results'', JList []) # l)) (JObj r)"
    by (simp add: aggregate_def null_results_left cong: sum.case_cong)
  show "aggregate (JObj l) (JObj ((''results'', JNull) # r)) =
     aggregate (JObj l) (JObj ((''results'', JList []) # r))"
    by (simp add: aggregate_def null_results_right cong: sum.case_cong)
  show "aggregate (JObj []) (JObj []) = Inr (JObj response_defaults)"
    by (simp add: aggregate_def both_success_def sum_field_def joined_results_def py_or_def
        response_defaults_def)
next
  fix agg
  assume m: "map_of l ''success'' = None \<or> map_of r ''success'' = None"
    and a: "aggregate (JObj l) (JObj r) = Inr agg"
  from aggregate_success_field[OF a] both_success_missing[OF m]
  show "py_get agg ''success'' JNull = Inr (JBool False)" by auto
qed

theorem aggregate_missing_fields_witness:
  "(map_of [(''total_new_records'', JInt 3)] ''success'' = None
     \<or> map_of [(''success'', JBool True), (''results'', JList [JInt 7])] ''success'' = None)
   \<and> aggregate (JObj [(''total_new_records'', JInt 3)])
                (JObj [(''success'', JBool True), (''results'', JList [JInt 7])]) =
       Inr (JObj [(''success'', JBool False), (''total_new_records'', JInt 3),
                  (''total_updated_records'', JInt 0), (''results'', JList [JInt 7])])
   \<and> py_get (JObj [(''success'', JBool False), (''total_new_records'', JInt 3),
                  (''total_updated_records'', JInt 0), (''results'', JList [JInt 7])])
         ''success'' JNull = Inr (JBool False)"
proof -
  have m: "map_of [(''total_new_records'', JInt 3)] ''success'' = None
     \<or> map_of [(''success'', JBool True), (''results'', JList [JInt 7])] ''success'' = None"
    by simp
  have a: "aggregate (JObj [(''total_new_records'', JInt 3)])
                (JObj [(''success'', JBool True), (''results'', JList [JInt 7])]) =
       Inr (JObj [(''success'', JBool False), (''total_new_records'', JInt 3),
                  (''total_updated_records'', JInt 0), (''results'', JList [JInt 7])])"
    by (simp add: aggregate_def both_success_def sum_field_def joined_results_def py_or_def)
  from aggregate_missing_fields[of "[(''total_new_records'', JInt 3)]"
      "[(''success'', JBool True), (''results'', JList [JInt 7])]"] m a
  show ?thesis by blast
qed

section \<open>Properties of the report\<close>

lemma py_slice_prefix: "py_slice xs 0 (int n) = take n xs"
  by (simp add: py_slice_def py_index_def min_def)

lemma sample_sorted_prefix:
  assumes "enumerates to_list" and "finite s"
  shows "sample to_list s = take 50 (sorted_list_of_set s)"
proof -
  from assms have e: "set (to_list s) = s" "distinct (to_list s)"
    by (simp_all add: enumerates_def)
  have "sort (to_list s) = sorted_list_of_set (set (to_list s))"
    using e(2) by (simp add: sorted_list_of_set_sort_remdups distinct_remdups_id)
  with e(1) have "sort (to_list s) = sorted_list_of_set s" by simp
  moreover have "py_slice xs 0 50 = take 50 xs" for xs :: "string list"
    using py_slice_prefix[of xs 50] by simp
  ultimately show ?thesis by (simp add: sample_def)
qed

lemma sorted_prefix_properties:
  fixes d :: "string set"
  assumes "finite d"
  defines "xs \<equiv> take 50 (sorted_list_of_set d)"
  shows "length xs = min 50 (card d)" and "sorted xs" and "distinct xs" and "set xs \<subseteq> d"
    and "\<forall>x\<in>set xs. \<forall>y\<in>d - set xs. x < y"
proof -
  let ?l = "sorted_list_of_set d"
  have l: "set ?l = d" "sorted ?l" "distinct ?l" "length ?l = card d"
    using assms(1) by simp_all
  show "length xs = min 50 (card d)" by (simp add: xs_def l(4) min.commute)
  show "sorted xs" unfolding xs_def using l(2) by (rule sorted_wrt_take)
  show "distinct xs" unfolding xs_def using l(3) by (rule distinct_take)
  show "set xs \<subseteq> d" unfolding xs_def using set_take_subset[of 50 ?l] l(1) by simp
  show "\<forall>x\<in>set xs. \<forall>y\<in>d - set xs. x < y"
  proof (intro ballI)
    fix x y assume x: "x \<in> set xs" and y: "y \<in> d - set xs"
    have split: "?l = xs @ drop 50 ?l" by (simp add: xs_def)
    from y l(1) have "y \<in> set ?l" by simp
    with y have yd: "y \<in> set (drop 50 ?l)"
      by (subst (asm) split) auto
    have "sorted (xs @ drop 50 ?l)" "distinct (xs @ drop 50 ?l)"
      using l(2,3) split by simp_all
    with x yd have "x \<le> y" "x \<noteq> y"
      by (auto simp: sorted_append)
    then show "x < y" by simp
  qed
qed


text \<open>
  C7. Whatever the order in which the sets are enumerated, the entry of the report
  holds the cardinalities of the three sets of identifiers, and for each of the four
  differences the first 50 elements of the difference in ascending order: a strictly
  sorted list of \<open>min(50, size)\<close> elements of the difference, each of them smaller than
  every element left out.
\<close>

theorem report_counts_and_samples:
  assumes "enumerates to_list" and "finite J" and "finite B" and "finite S"
  shows "json_count (report_of to_list J B S) = card J
    \<and> bronze_count (report_of to_list J B S) = card B
    \<and> silver_count (report_of to_list J B S) = card S
    \<and> json_minus_bronze (report_of to_list J B S) = take 50 (sorted_list_of_set (J - B))
    \<and> bronze_minus_json (report_of to_list J B S) = take 50 (sorted_list_of_set (B - J))
    \<and> bronze_minus_silver (report_of to_list J B S) = take 50 (sorted_list_of_set (B - S))
    \<and> silver_minus_bronze (report_of to_list J B S) = take 50 (sorted_list_of_set (S - B))
    \<and> (\<forall>d\<in>{J - B, B - J, B - S, S - B}.
          length (take 50 (sorted_list_of_set d)) = min 50 (card d)
          \<and> sorted (take 50 (sorted_list_of_set d))
          \<and> distinct (take 50 (sorted_list_of_set d))
          \<and> set (take 50 (sorted_list_of_set d)) \<subseteq> d
          \<and> (\<forall>x\<in>set (take 50 (sorted_list_of_set d)).
                \<forall>y\<in>d - set (take 50 (sorted_list_of_set d)). x < y))"
proof -
  have fin: "finite d" if "d \<in> {J - B, B - J, B - S, S - B}" for d
    using that assms(2-4) by auto
  have samples: "sample to_list d = take 50 (sorted_list_of_set d)"
    if "d \<in> {J - B, B - J, B - S, S - B}" for d
    using sample_sorted_prefix[OF assms(1) fin[OF that]] .
  have props: "length (take 50 (sorted_list_of_set d)) = min 50 (card d)
          \<and> sorted (take 50 (sorted_list_of_set d))
          \<and> distinct (take 50 (sorted_list_of_set d))
          \<and> set (take 50 (sorted_list_of_set d)) \<subseteq> d
          \<and> (\<forall>x\<in>set (take 50 (sorted_list_of_set d)).
                \<forall>y\<in>d - set (take 50 (sorted_list_of_set d)). x < y)"
    if "d \<in> {J - B, B - J, B - S, S - B}" for d
    using sorted_prefix_properties[OF fin[OF that]] by blast
  show ?thesis
    using props by (simp add: report_of_def samples)
qed

lemma descending_enumerates: "enumerates descending"
  by (simp add: enumerates_def descending_def)

theorem report_counts_and_samples_witness:
  "enumerates descending
   \<and> finite {''1'', ''2'', ''3''} \<and> finite {''2'', ''3'', ''4''} \<and> finite {''3'', ''4'', ''5''}
   \<and> json_count (report_of descending {''1'', ''2'', ''3''} {''2'', ''3'', ''4''}
         {''3'', ''4'', ''5''}) = 3
   \<and> bronze_count (report_of descending {''1'', ''2'', ''3''} {''2'', ''3'', ''4''}
         {''3'', ''4'', ''5''}) = 3
   \<and> silver_count (report_of descending {''1'', ''2'', ''3''} {''2'', ''3'', ''4''}
         {''3'', ''4'', ''5''}) = 3
   \<and> json_minus_bronze (report_of descending {''1'', ''2'', ''3''} {''2'', ''3'', ''4''}
         {''3'', ''4'', ''5''}) = [''1'']
   \<and> bronze_minus_json (report_of descending {''1'', ''2'', ''3''} {''2'', ''3'', ''4''}
         {''3'', ''4'', ''5''}) = [''4'']
   \<and> bronze_minus_silver (report_of descending {''1'', ''2'', ''3''} {''2'', ''3'', ''4''}
         {''3'', ''4'', ''5''}) = [''2'']
   \<and> silver_minus_bronze (report_of descending {''1'', ''2'', ''3''} {''2'', ''3'', ''4''}
         {''3'', ''4'', ''5''}) = [''5'']"
proof -
  have f: "finite {''1'', ''2'', ''3''}" "finite {''2'', ''3'', ''4''}" "finite {''3'', ''4'', ''5''}"
    by simp_all
  have d: "{''1'', ''2'', ''3''} - {''2'', ''3'', ''4''} = {''1''}"
    "{''2'', ''3'', ''4''} - {''1'', ''2'', ''3''} = {''4''}"
    "{''2'', ''3'', ''4''} - {''3'', ''4'', ''5''} = {''2''}"
    "{''3'', ''4'', ''5''} - {''2'', ''3'', ''4''} = {''5''}"
    by auto
  from report_counts_and_samples[OF descending_enumerates f] descending_enumerates
  show ?thesis
    by (simp add: d)
qed

section \<open>Properties of the identifier sets\<close>

lemma add_id_dict:
  "is_dict r \<Longrightarrow>
   add_id repr key r ids = Inr (ids \<union> py_str repr ` set_option (identifier_of key r))"
  by (cases r) (auto simp: add_id_def split: option.splits)


lemma for_rows_add_id:
  "\<forall>r\<in>set rows. is_dict r \<Longrightarrow>
   for_rows (add_id repr key) rows ids =
     Inr (ids \<union> py_str repr ` {v. \<exists>r\<in>set rows. identifier_of key r = Some v})"
proof (induction rows arbitrary: ids)
  case Nil
  then show ?case by simp
next
  case (Cons r rows)
  have "{v. \<exists>x\<in>set (r # rows). identifier_of key x = Some v} =
        set_option (identifier_of key r) \<union> {v. \<exists>x\<in>set rows. identifier_of key x = Some v}"
    by (auto)
  with Cons show ?case
    by (simp add: add_id_dict image_Un Un_assoc)
qed
















section \<open>Properties of the paged reads\<close>

lemma fetch_loop_step:
  assumes "ep (server w) f (f + P - 1) = (Reply st (Some data) hdr, s')"
    and "raise_for_status st = None" and "py_iter data = Inr page"
  shows "fetch_loop P ep f rows w =
     (if \<not> truthy data \<or> (total_after_last hdr \<noteq> None \<and> the (total_after_last hdr) \<le> f + P)
      then Some (Inr (rows @ page), after_get ep f (f + P - 1) w)
      else fetch_loop P ep (f + P) (rows @ page) (after_get ep f (f + P - 1) w))"
  by (subst fetch_loop.simps) (auto simp: assms Let_def after_get_def)

lemma distinct_loop_step:
  assumes "ep (server w) f (f + P - 1) = (Reply st (Some data) hdr, s')"
    and "raise_for_status st = None" and "py_iter data = Inr page"
    and "for_rows (add_id repr ''external_id'') page ids = Inr ids1"
  shows "distinct_loop repr P ep f ids w =
     (if \<not> truthy data \<or> (total_after_first hdr \<noteq> None \<and> the (total_after_first hdr) \<le> f + P)
      then Some (Inr ids1, after_get ep f (f + P - 1) w)
      else distinct_loop repr P ep (f + P) ids1 (after_get ep f (f + P - 1) w))"
  by (subst distinct_loop.simps) (auto simp: assms Let_def after_get_def)











lemma fetch_no_total_step:
  assumes pw: "pages_without_total total_after_last ep page"
  shows "fetch_loop P ep f rows w =
     (if page (server w) f (f + P - 1) = []
      then Some (Inr rows, after_get ep f (f + P - 1) w)
      else fetch_loop P ep (f + P) (rows @ page (server w) f (f + P - 1))
             (after_get ep f (f + P - 1) w))"
proof -
  from pw obtain st hdr s'
    where e: "ep (server w) f (f + P - 1) =
        (Reply st (Some (JList (page (server w) f (f + P - 1)))) hdr, s')"
      and ok: "raise_for_status st = None" and tot: "total_after_last hdr = None"
    unfolding pages_without_total_def by blast
  from fetch_loop_step[where ep = ep and w = w and f = f and P = P and rows = rows
      and page = "page (server w) f (f + P - 1)", OF e ok] tot
  show ?thesis by simp
qed

lemma distinct_no_total_step:
  assumes pw: "pages_without_total total_after_first ep page"
    and dicts: "\<forall>s f t. \<forall>r\<in>set (page s f t). is_dict r"
  shows "distinct_loop repr P ep f ids w =
     (if page (server w) f (f + P - 1) = []
      then Some (Inr ids, after_get ep f (f + P - 1) w)
      else distinct_loop repr P ep (f + P)
             (ids \<union> py_str repr ` {v. \<exists>r\<in>set (page (server w) f (f + P - 1)).
                                         identifier_of ''external_id'' r = Some v})
             (after_get ep f (f + P - 1) w))"
proof -
  from pw obtain st hdr s'
    where e: "ep (server w) f (f + P - 1) =
        (Reply st (Some (JList (page (server w) f (f + P - 1)))) hdr, s')"
      and ok: "raise_for_status st = None" and tot: "total_after_first hdr = None"
    unfolding pages_without_total_def by blast
  have acc: "for_rows (add_id repr ''external_id'') (page (server w) f (f + P - 1)) ids =
      Inr (ids \<union> py_str repr ` {v. \<exists>r\<in>set (page (server w) f (f + P - 1)).
                                         identifier_of ''external_id'' r = Some v})"
    using dicts by (intro for_rows_add_id) blast
  from distinct_loop_step[where ep = ep and w = w and f = f and P = P and ids = ids
      and page = "page (server w) f (f + P - 1)", OF e ok _ acc] tot
  show ?thesis by auto
qed

lemma fetch_no_total_never:
  fixes ep :: "'s get_endpoint"
  assumes pw: "pages_without_total total_after_last ep page"
    and full: "\<forall>s f t. page s f t \<noteq> []"
  shows "fetch_loop P ep f rows w = None"
proof -
  define Q where "Q = (\<lambda>(P :: int) (ep' :: 's get_endpoint) (f :: int) (rows :: json list)
      (w :: 's world) (y :: (error + json list) \<times> 's world). ep' \<noteq> ep)"
  have never: "Q P ep f rows w y" if run: "fetch_loop P ep f rows w = Some y" for y
  proof (rule fetch_loop.raw_induct[where P = Q, OF _ run])
    fix loop P and ep' :: "'s get_endpoint" and f rows and w :: "'s world" and y
    assume IH: "\<And>P ep' f rows w y. loop P ep' f rows w = Some y \<Longrightarrow> Q P ep' f rows w y"
    assume step: "(let range_to = f + P - 1 in
      case ep' (server w) f range_to of (r, s') \<Rightarrow>
        (let w1 = \<lparr>server = s', trace = trace w @ [Get f range_to]\<rparr> in
         case r of
           No_reply \<Rightarrow> Some (Inl TransportError, w1)
         | Reply status body hdr \<Rightarrow>
             (case raise_for_status status of
                Some e \<Rightarrow> Some (Inl e, w1)
              | None \<Rightarrow>
                  (case body of
                     None \<Rightarrow> Some (Inl JSONDecodeError, w1)
                   | Some data \<Rightarrow>
                       (case py_iter data of
                          Inl e \<Rightarrow> Some (Inl e, w1)
                        | Inr page \<Rightarrow>
                            (let rows' = rows @ page; total = total_after_last hdr in
                             if \<not> truthy data \<or> (total \<noteq> None \<and> range_to + 1 \<ge> the total)
                             then Some (Inr rows', w1)
                             else loop P ep' (f + P) rows' w1)))))) = Some y"
    show "Q P ep' f rows w y"
      unfolding Q_def
    proof
      assume same: "ep' = ep"
      from pw obtain st hdr s'
        where e: "ep (server w) f (f + P - 1) =
            (Reply st (Some (JList (page (server w) f (f + P - 1)))) hdr, s')"
          and ok: "raise_for_status st = None" and tot: "total_after_last hdr = None"
        unfolding pages_without_total_def by blast
      from step e ok tot full same
      have "loop P ep (f + P) (rows @ page (server w) f (f + P - 1))
          \<lparr>server = s', trace = trace w @ [Get f (f + P - 1)]\<rparr> = Some y"
        by (simp add: Let_def)
      from IH[OF this] show False by (simp add: Q_def)
    qed
  qed
  show ?thesis
  proof (cases "fetch_loop P ep f rows w")
    case None
    then show ?thesis .
  next
    case (Some y)
    from never[OF this] show ?thesis by (simp add: Q_def)
  qed
qed

lemma fetch_no_total_ends:
  assumes pw: "pages_without_total total_after_last ep page" and P: "1 \<le> P"
    and empty: "\<forall>s f t. M \<le> f \<longrightarrow> page s f t = []"
  shows "\<exists>rows' w'. fetch_loop P ep f rows w = Some (Inr rows', w')"
proof (induction "nat (M - f)" arbitrary: f rows w rule: less_induct)
  case less
  show ?case
  proof (cases "page (server w) f (f + P - 1) = []")
    case True
    then show ?thesis by (simp add: fetch_no_total_step[OF pw])
  next
    case False
    with empty have "f < M" by (meson not_le)
    with P have "nat (M - (f + P)) < nat (M - f)" by simp
    from less[OF this] False show ?thesis
      by (simp add: fetch_no_total_step[OF pw])
  qed
qed


lemma distinct_no_total_never:
  fixes ep :: "'s get_endpoint"
  assumes pw: "pages_without_total total_after_first ep page"
    and dicts: "\<forall>s f t. \<forall>r\<in>set (page s f t). is_dict r"
    and full: "\<forall>s f t. page s f t \<noteq> []"
  shows "distinct_loop repr P ep f ids w = None"
proof -
  define Q where "Q = (\<lambda>(repr :: json \<Rightarrow> string) (P :: int) (ep' :: 's get_endpoint) (f :: int)
      (ids :: string set) (w :: 's world) (y :: (error + string set) \<times> 's world). ep' \<noteq> ep)"
  have never: "Q repr P ep f ids w y" if run: "distinct_loop repr P ep f ids w = Some y" for y
  proof (rule distinct_loop.raw_induct[where P = Q, OF _ run])
    fix loop repr P and ep' :: "'s get_endpoint" and f ids and w :: "'s world" and y
    assume IH: "\<And>repr P ep' f ids w y.
        loop repr P ep' f ids w = Some y \<Longrightarrow> Q repr P ep' f ids w y"
    assume step: "(let range_to = f + P - 1 in
      case ep' (server w) f range_to of (r, s') \<Rightarrow>
        (let w1 = \<lparr>server = s', trace = trace w @ [Get f range_to]\<rparr> in
         case r of
           No_reply \<Rightarrow> Some (Inl TransportError, w1)
         | Reply status body hdr \<Rightarrow>
             (case raise_for_status status of
                Some e \<Rightarrow> Some (Inl e, w1)
              | None \<Rightarrow>
                  (case body of
                     None \<Rightarrow> Some (Inl JSONDecodeError, w1)
                   | Some data \<Rightarrow>
                       (case py_iter data of
                          Inl e \<Rightarrow> Some (Inl e, w1)
                        | Inr page \<Rightarrow>
                            (case for_rows (add_id repr ''external_id'') page ids of
                               Inl e \<Rightarrow> Some (Inl e, w1)
                             | Inr ids' \<Rightarrow>
                                 (let total = total_after_first hdr in
                                  if \<not> truthy data \<or> (total \<noteq> None \<and> range_to + 1 \<ge> the total)
                                  then Some (Inr ids', w1)
                                  else loop repr P ep' (f + P) ids' w1))))))) = Some y"
    show "Q repr P ep' f ids w y"
      unfolding Q_def
    proof
      assume same: "ep' = ep"
      from pw obtain st hdr s'
        where e: "ep (server w) f (f + P - 1) =
            (Reply st (Some (JList (page (server w) f (f + P - 1)))) hdr, s')"
          and ok: "raise_for_status st = None" and tot: "total_after_first hdr = None"
        unfolding pages_without_total_def by blast
      have acc: "for_rows (add_id repr ''external_id'') (page (server w) f (f + P - 1)) ids =
          Inr (ids \<union> py_str repr ` {v. \<exists>r\<in>set (page (server w) f (f + P - 1)).
                                         identifier_of ''external_id'' r = Some v})"
        using dicts by (intro for_rows_add_id) blast
      from step e ok tot full same acc
      have "loop repr P ep (f + P)
          (ids \<union> py_str repr ` {v. \<exists>r\<in>set (page (server w) f (f + P - 1)).
                                         identifier_of ''external_id'' r = Some v})
          \<lparr>server = s', trace = trace w @ [Get f (f + P - 1)]\<rparr> = Some y"
        by (simp add: Let_def)
      from IH[OF this] show False by (simp add: Q_def)
    qed
  qed
  show ?thesis
  proof (cases "distinct_loop repr P ep f ids w")
    case None
    then show ?thesis .
  next
    case (Some y)
    from never[OF this] show ?thesis by (simp add: Q_def)
  qed
qed

lemma distinct_no_total_ends:
  assumes pw: "pages_without_total total_after_first ep page"
    and dicts: "\<forall>s f t. \<forall>r\<in>set (page s f t). is_dict r"
    and P: "1 \<le> P"
    and empty: "\<forall>s f t. M \<le> f \<longrightarrow> page s f t = []"
  shows "\<exists>ids' w'. distinct_loop repr P ep f ids w = Some (Inr ids', w')"
proof (induction "nat (M - f)" arbitrary: f ids w rule: less_induct)
  case less
  show ?case
  proof (cases "page (server w) f (f + P - 1) = []")
    case True
    then show ?thesis by (simp add: distinct_no_total_step[OF pw dicts])
  next
    case False
    with empty have "f < M" by (meson not_le)
    with P have "nat (M - (f + P)) < nat (M - f)" by simp
    from less[OF this] False show ?thesis
      by (simp add: distinct_no_total_step[OF pw dicts])
  qed
qed

text \<open>
  C2, as the code has it. When the server never reports a total, the loops of
  \<open>fetch_all_rows\<close> and of \<open>get_distinct_external_ids\<close> (on rows that are dicts) end
  after a page exactly when the page is empty: after a non-empty page, however short,
  the next window is requested. So the read never returns when every page holds a
  row, and it returns when the pages are empty from some position on.
\<close>

theorem fetch_without_total_ends_on_empty_page_only:
  assumes pw: "pages_without_total total_after_last ep page"
    and pw': "pages_without_total total_after_first ep page"
  shows "fetch_loop P ep f rows w =
       (if page (server w) f (f + P - 1) = []
        then Some (Inr rows, after_get ep f (f + P - 1) w)
        else fetch_loop P ep (f + P) (rows @ page (server w) f (f + P - 1))
               (after_get ep f (f + P - 1) w))
    \<and> ((\<forall>s f t. page s f t \<noteq> []) \<longrightarrow> fetch_loop P ep f rows w = None)
    \<and> (1 \<le> P \<and> (\<forall>s f t. M \<le> f \<longrightarrow> page s f t = []) \<longrightarrow>
          (\<exists>rows' w'. fetch_loop P ep f rows w = Some (Inr rows', w')))
    \<and> ((\<forall>s f t. \<forall>r\<in>set (page s f t). is_dict r) \<longrightarrow>
          distinct_loop repr P ep f ids w =
            (if page (server w) f (f + P - 1) = []
             then Some (Inr ids, after_get ep f (f + P - 1) w)
             else distinct_loop repr P ep (f + P)
                    (ids \<union> py_str repr ` {v. \<exists>r\<in>set (page (server w) f (f + P - 1)).
                                                identifier_of ''external_id'' r = Some v})
                    (after_get ep f (f + P - 1) w))
          \<and> ((\<forall>s f t. page s f t \<noteq> []) \<longrightarrow> distinct_loop repr P ep f ids w = None)
          \<and> (1 \<le> P \<and> (\<forall>s f t. M \<le> f \<longrightarrow> page s f t = []) \<longrightarrow>
               (\<exists>ids' w'. distinct_loop repr P ep f ids w = Some (Inr ids', w'))))"
proof (intro conjI impI)
  show "fetch_loop P ep f rows w =
       (if page (server w) f (f + P - 1) = []
        then Some (Inr rows, after_get ep f (f + P - 1) w)
        else fetch_loop P ep (f + P) (rows @ page (server w) f (f + P - 1))
               (after_get ep f (f + P - 1) w))"
    by (rule fetch_no_total_step[OF pw])
next
  assume "\<forall>s f t. page s f t \<noteq> []"
  then show "fetch_loop P ep f rows w = None"
    by (rule fetch_no_total_never[OF pw])
next
  assume "1 \<le> P \<and> (\<forall>s f t. M \<le> f \<longrightarrow> page s f t = [])"
  then show "\<exists>rows' w'. fetch_loop P ep f rows w = Some (Inr rows', w')"
    using fetch_no_total_ends[OF pw] by blast
next
  assume d: "\<forall>s f t. \<forall>r\<in>set (page s f t). is_dict r"
  show "distinct_loop repr P ep f ids w =
            (if page (server w) f (f + P - 1) = []
             then Some (Inr ids, after_get ep f (f + P - 1) w)
             else distinct_loop repr P ep (f + P)
                    (ids \<union> py_str repr ` {v. \<exists>r\<in>set (page (server w) f (f + P - 1)).
                                                identifier_of ''external_id'' r = Some v})
                    (after_get ep f (f + P - 1) w))"
    by (rule distinct_no_total_step[OF pw' d])
next
  assume d: "\<forall>s f t. \<forall>r\<in>set (page s f t). is_dict r"
    and "\<forall>s f t. page s f t \<noteq> []"
  then show "distinct_loop repr P ep f ids w = None"
    by (intro distinct_no_total_never[OF pw'])
next
  assume d: "\<forall>s f t. \<forall>r\<in>set (page s f t). is_dict r"
    and "1 \<le> P \<and> (\<forall>s f t. M \<le> f \<longrightarrow> page s f t = [])"
  then show "\<exists>ids' w'. distinct_loop repr P ep f ids w = Some (Inr ids', w')"
    using distinct_no_total_ends[OF pw'] by blast
qed


lemma no_header: "total_after_last None = None" "total_after_first None = None"
  by (simp_all add: total_after_last_def total_after_first_def header_or_empty_def)

lemma serve_without_total:
  "pages_without_total total_after_last (serve_collection coll None) (collection_pages coll)"
  "pages_without_total total_after_first (serve_collection coll None) (collection_pages coll)"
  by (simp_all add: pages_without_total_def serve_collection_def collection_pages_def
      raise_for_status_def no_header)

lemma one_row_without_total:
  "pages_without_total total_after_last one_row_pages (\<lambda>s f t. [JObj []])"
  by (simp add: pages_without_total_def one_row_pages_def raise_for_status_def no_header)

lemma short_page_then_empty:
  "1 \<le> P \<Longrightarrow>
   fetch_loop P (serve_collection [JObj []] None) 0 [] world0 =
     Some (Inr [JObj []], \<lparr>server = (), trace = [Get 0 (P - 1), Get P (P + P - 1)]\<rparr>)"
  by (simp add: fetch_no_total_step[OF serve_without_total(1)] collection_pages_def window_def
      after_get_def world0_def serve_collection_def)

theorem fetch_without_total_ends_on_empty_page_only_witness:
  "pages_without_total total_after_last (serve_collection [JObj []] None)
     (collection_pages [JObj []])
   \<and> pages_without_total total_after_first (serve_collection [JObj []] None)
     (collection_pages [JObj []])
   \<and> collection_pages [JObj []] () 0 1 = [JObj []]
   \<and> fetch_loop 2 (serve_collection [JObj []] None) 0 [] world0 =
       fetch_loop 2 (serve_collection [JObj []] None) 2 [JObj []]
         \<lparr>server = (), trace = [Get 0 1]\<rparr>
   \<and> collection_pages [JObj []] () 2 3 = []
   \<and> fetch_loop 2 (serve_collection [JObj []] None) 2 [JObj []]
         \<lparr>server = (), trace = [Get 0 1]\<rparr> =
       Some (Inr [JObj []], \<lparr>server = (), trace = [Get 0 1, Get 2 3]\<rparr>)"
proof -
  note pw = serve_without_total[of "[JObj []]"]
  have p1: "collection_pages [JObj []] () 0 1 = [JObj []]"
    and p2: "collection_pages [JObj []] () 2 3 = []"
    by (simp_all add: collection_pages_def window_def)
  from fetch_without_total_ends_on_empty_page_only[OF pw, where P = 2 and f = 0
      and rows = "[]" and w = world0]
  have s1: "fetch_loop 2 (serve_collection [JObj []] None) 0 [] world0 =
       fetch_loop 2 (serve_collection [JObj []] None) 2 [JObj []]
         \<lparr>server = (), trace = [Get 0 1]\<rparr>"
    by (simp add: p1 world0_def after_get_def)
  from fetch_without_total_ends_on_empty_page_only[OF pw, where P = 2 and f = 2
      and rows = "[JObj []]" and w = "\<lparr>server = (), trace = [Get 0 1]\<rparr>"]
  have s2: "fetch_loop 2 (serve_collection [JObj []] None) 2 [JObj []]
         \<lparr>server = (), trace = [Get 0 1]\<rparr> =
       Some (Inr [JObj []], \<lparr>server = (), trace = [Get 0 1, Get 2 3]\<rparr>)"
    by (simp add: p2 after_get_def)
  from pw p1 p2 s1 s2 show ?thesis by blast
qed

text \<open>
  C2 as stated fails: without a total, a first page of one row (fewer than the 10000
  asked for) is followed by a second request, and against a server that answers
  every request with one row \<open>fetch_all_rows\<close> never returns.
\<close>

theorem short_page_does_not_end_fetch_counterexample:
  "fetch_all_rows (serve_collection [JObj []] None) world0 =
     Some (Inr [JObj []], \<lparr>server = (), trace = [Get 0 9999, Get 10000 19999]\<rparr>)
   \<and> fetch_all_rows one_row_pages world0 = None"
proof -
  have "fetch_all_rows (serve_collection [JObj []] None) world0 =
     Some (Inr [JObj []], \<lparr>server = (), trace = [Get 0 9999, Get 10000 19999]\<rparr>)"
    using short_page_then_empty[of PAGE_SIZE]
    by (simp add: fetch_all_rows_def PAGE_SIZE_def)
  moreover have "fetch_all_rows one_row_pages world0 = None"
    unfolding fetch_all_rows_def
    by (rule fetch_no_total_never[OF one_row_without_total]) simp
  ultimately show ?thesis by simp
qed

end
